theory Spec2Isabelle
  imports Main "HOL-Library.Sublist"
begin

section \<open>JavaScript strings and JSON values\<close>

text \<open>
  A JavaScript string is a sequence of UTF-16 code units; a code unit is modelled by its
  number. \<open>String.length\<close> counts code units, and so does \<open>length\<close> here. The text of
  the backing document is such a string too: what \<open>fs.readFile(DATA_FILE, 'utf8')\<close>
  returns and what \<open>fs.writeFile\<close> is given.
\<close>

type_synonym jschar = nat
type_synonym jsstring = "jschar list"

definition js_of :: "string \<Rightarrow> jsstring" where
  "js_of s = map of_char s"

text \<open>
  The values \<open>JSON.parse\<close> can return, as far as they are modelled: \<open>null\<close>, booleans,
  numbers, strings, arrays and objects. An object is the list of its own properties in
  enumeration order. A number is an IEEE double; the model has the integers a double
  holds exactly (up to \<open>2^53 - 1\<close> in magnitude, \<open>-0\<close> taken as \<open>0\<close>), written without
  fraction or exponent, and the two infinities (the flag of \<open>JInfinity\<close> is the sign,
  true for \<open>-Infinity\<close>). \<open>JSON.parse\<close> returns an infinity for a numeral beyond the
  range of a double, such as \<open>1e400\<close>; \<open>express.json()\<close> parses the request with it, so
  a request body can hold one. Every other number is left out, and so are objects with
  a key made of digits only (JavaScript enumerates array-index keys first, in numeric
  order). \<open>undefined\<close> is not a JSON value: a property read returns an option.
\<close>

datatype jsval =
    JNull
  | JBool bool
  | JNum int
  | JInfinity bool
  | JStr jsstring
  | JArr "jsval list"
  | JObj "(jsstring \<times> jsval) list"

text \<open>\<open>ToBoolean\<close>, as \<open>!x\<close> and \<open>||\<close> apply it; \<open>undefined\<close> is \<open>None\<close>.\<close>

fun truthy :: "jsval \<Rightarrow> bool" where
  "truthy JNull = False"
| "truthy (JBool b) = b"
| "truthy (JNum n) = (n \<noteq> 0)"
| "truthy (JInfinity negative) = True"
| "truthy (JStr s) = (s \<noteq> [])"
| "truthy (JArr vs) = True"
| "truthy (JObj ms) = True"

fun truthy_opt :: "jsval option \<Rightarrow> bool" where
  "truthy_opt None = False"
| "truthy_opt (Some v) = truthy v"

text \<open>
  \<open>o[k] = v\<close> on a plain object whose keys are not array indices: an existing property
  keeps its place, a new one is added last.
\<close>

fun obj_set :: "jsstring \<Rightarrow> jsval \<Rightarrow> (jsstring \<times> jsval) list \<Rightarrow> (jsstring \<times> jsval) list" where
  "obj_set k v [] = [(k, v)]"
| "obj_set k v ((k', v') # ms) =
     (if k' = k then (k, v) # ms else (k', v') # obj_set k v ms)"

section \<open>JSON.stringify\<close>

definition hexdigit :: "nat \<Rightarrow> jschar" where
  "hexdigit d = (if d < 10 then 48 + d else 87 + d)"

text \<open>\<open>UnicodeEscape\<close>: a backslash, \<open>u\<close> and four lowercase hexadecimal digits.\<close>

definition unicode_escape :: "jschar \<Rightarrow> jsstring" where
  "unicode_escape c =
     [92, 117, hexdigit (c div 4096 mod 16), hexdigit (c div 256 mod 16),
      hexdigit (c div 16 mod 16), hexdigit (c mod 16)]"

definition is_high_surrogate :: "jschar \<Rightarrow> bool" where
  "is_high_surrogate c = (55296 \<le> c \<and> c \<le> 56319)"

definition is_low_surrogate :: "jschar \<Rightarrow> bool" where
  "is_low_surrogate c = (56320 \<le> c \<and> c \<le> 57343)"

text \<open>
  \<open>QuoteJSONString\<close>, between the quotes: the short escapes, \<open>\\u00XX\<close> for the other
  control characters and for a surrogate without its partner, the character itself
  otherwise.
\<close>

fun quote_chars :: "jsstring \<Rightarrow> jsstring" where
  "quote_chars [] = []"
| "quote_chars (c # cs) =
     (if c = 8 then [92, 98] @ quote_chars cs
      else if c = 9 then [92, 116] @ quote_chars cs
      else if c = 10 then [92, 110] @ quote_chars cs
      else if c = 12 then [92, 102] @ quote_chars cs
      else if c = 13 then [92, 114] @ quote_chars cs
      else if c = 34 then [92, 34] @ quote_chars cs
      else if c = 92 then [92, 92] @ quote_chars cs
      else if c < 32 then unicode_escape c @ quote_chars cs
      else if is_high_surrogate c then
        (case cs of
           [] \<Rightarrow> unicode_escape c
         | d # ds \<Rightarrow>
             if is_low_surrogate d then c # d # quote_chars ds
             else unicode_escape c @ quote_chars cs)
      else if is_low_surrogate c then unicode_escape c @ quote_chars cs
      else c # quote_chars cs)"

definition quote_json :: "jsstring \<Rightarrow> jsstring" where
  "quote_json s = 34 # quote_chars s @ [34]"

text \<open>
  \<open>Number.prototype.toString\<close> on an integer below \<open>10^21\<close> in magnitude, which every
  \<open>Date.now()\<close> and every integer of the model is: the decimal digits, after a minus
  sign when negative.
\<close>

fun nat_digits :: "nat \<Rightarrow> jsstring" where
  "nat_digits n = (if n < 10 then [48 + n] else nat_digits (n div 10) @ [48 + n mod 10])"

declare nat_digits.simps [simp del]

definition number_toString :: "int \<Rightarrow> jsstring" where
  "number_toString n = (if n < 0 then 45 # nat_digits (nat (- n)) else nat_digits (nat n))"

definition spaces :: "nat \<Rightarrow> jsstring" where
  "spaces n = replicate n 32"

text \<open>
  \<open>SerializeJSONProperty\<close> with a gap of two spaces, as \<open>JSON.stringify(contacts, null, 2)\<close>
  runs it; the first argument is the length of the current indent. A number that is not
  finite is written \<open>null\<close>.
\<close>

fun ser :: "nat \<Rightarrow> jsval \<Rightarrow> jsstring"
  and ser_elements :: "nat \<Rightarrow> jsval list \<Rightarrow> jsstring"
  and ser_members :: "nat \<Rightarrow> (jsstring \<times> jsval) list \<Rightarrow> jsstring"
where
  "ser i JNull = [110, 117, 108, 108]"
| "ser i (JBool b) = (if b then [116, 114, 117, 101] else [102, 97, 108, 115, 101])"
| "ser i (JNum n) = number_toString n"
| "ser i (JInfinity negative) = [110, 117, 108, 108]"
| "ser i (JStr s) = quote_json s"
| "ser i (JArr []) = [91, 93]"
| "ser i (JArr (v # vs)) =
     [91, 10] @ spaces (i + 2) @ ser_elements (i + 2) (v # vs) @ [10] @ spaces i @ [93]"
| "ser i (JObj []) = [123, 125]"
| "ser i (JObj (m # ms)) =
     [123, 10] @ spaces (i + 2) @ ser_members (i + 2) (m # ms) @ [10] @ spaces i @ [125]"
| "ser_elements i [] = []"
| "ser_elements i [v] = ser i v"
| "ser_elements i (v # w # vs) = ser i v @ [44, 10] @ spaces i @ ser_elements i (w # vs)"
| "ser_members i [] = []"
| "ser_members i [(k, v)] = quote_json k @ [58, 32] @ ser i v"
| "ser_members i ((k, v) # m # ms) =
     quote_json k @ [58, 32] @ ser i v @ [44, 10] @ spaces i @ ser_members i (m # ms)"

definition JSON_stringify :: "jsval \<Rightarrow> jsstring" where
  "JSON_stringify v = ser 0 v"

section \<open>JSON.parse\<close>

text \<open>
  The outcome of parsing: the value, a \<open>SyntaxError\<close>, or \<open>Unmodelled\<close> where the text
  leaves the model (a number that is not a safe integer written in digits, a
  digits-only key) and nothing is said about what JavaScript does with it. A numeral
  with an exponent is such a text, so the parser never returns \<open>JInfinity\<close>.
  \<open>Out_Of_Fuel\<close> is the answer of the recursive functions below when their bound on the
  number of calls is used up; \<open>JSON_parse\<close> never returns it (\<open>JSON_parse_fuel\<close>).
\<close>

datatype 'a parsed = Parsed 'a | Syntax_Error | Unmodelled | Out_Of_Fuel

fun and_then :: "'a parsed \<Rightarrow> ('a \<Rightarrow> 'b parsed) \<Rightarrow> 'b parsed" where
  "and_then (Parsed x) f = f x"
| "and_then Syntax_Error f = Syntax_Error"
| "and_then Unmodelled f = Unmodelled"
| "and_then Out_Of_Fuel f = Out_Of_Fuel"

definition is_ws :: "jschar \<Rightarrow> bool" where
  "is_ws c = (c = 32 \<or> c = 9 \<or> c = 10 \<or> c = 13)"

definition skip_ws :: "jsstring \<Rightarrow> jsstring" where
  "skip_ws s = dropWhile is_ws s"

definition is_digit :: "jschar \<Rightarrow> bool" where
  "is_digit c = (48 \<le> c \<and> c \<le> 57)"

definition hexval :: "jschar \<Rightarrow> nat option" where
  "hexval c =
     (if 48 \<le> c \<and> c \<le> 57 then Some (c - 48)
      else if 97 \<le> c \<and> c \<le> 102 then Some (c - 87)
      else if 65 \<le> c \<and> c \<le> 70 then Some (c - 55)
      else None)"

definition hex4 :: "jschar \<Rightarrow> jschar \<Rightarrow> jschar \<Rightarrow> jschar \<Rightarrow> nat option" where
  "hex4 a b c d =
     (case (hexval a, hexval b, hexval c, hexval d) of
        (Some p, Some q, Some r, Some s) \<Rightarrow> Some (p * 4096 + q * 256 + r * 16 + s)
      | _ \<Rightarrow> None)"

definition unescape :: "jschar \<Rightarrow> jschar option" where
  "unescape e =
     (if e = 34 then Some 34
      else if e = 92 then Some 92
      else if e = 47 then Some 47
      else if e = 98 then Some 8
      else if e = 102 then Some 12
      else if e = 110 then Some 10
      else if e = 114 then Some 13
      else if e = 116 then Some 9
      else None)"

text \<open>A JSON string after its opening quote: the characters and the text after the closing quote.\<close>

fun parse_chars :: "jsstring \<Rightarrow> (jsstring \<times> jsstring) parsed" where
  "parse_chars [] = Syntax_Error"
| "parse_chars (c # cs) =
     (if c = 34 then Parsed ([], cs)
      else if c = 92 then
        (case cs of
           [] \<Rightarrow> Syntax_Error
         | e # es \<Rightarrow>
             if e = 117 then
               (case es of
                  h1 # h2 # h3 # h4 # r \<Rightarrow>
                    (case hex4 h1 h2 h3 h4 of
                       None \<Rightarrow> Syntax_Error
                     | Some u \<Rightarrow> and_then (parse_chars r) (\<lambda>(str, r'). Parsed (u # str, r')))
                | _ \<Rightarrow> Syntax_Error)
             else
               (case unescape e of
                  None \<Rightarrow> Syntax_Error
                | Some u \<Rightarrow> and_then (parse_chars es) (\<lambda>(str, r'). Parsed (u # str, r'))))
      else if c < 32 then Syntax_Error
      else and_then (parse_chars cs) (\<lambda>(str, r'). Parsed (c # str, r')))"

definition digits_only :: "jsstring \<Rightarrow> bool" where
  "digits_only k = (k \<noteq> [] \<and> list_all is_digit k)"

text \<open>
  A JSON number, from its first character (a minus sign or a digit): an optional minus
  sign, then \<open>0\<close> or a digit from 1 to 9 followed by digits. Where a fraction or an
  exponent follows, or the integer is beyond \<open>2^53 - 1\<close>, the number is outside the
  model.
\<close>

definition max_safe_integer :: int where
  "max_safe_integer = 9007199254740991"

fun parse_digits :: "nat \<Rightarrow> jsstring \<Rightarrow> nat \<times> jsstring" where
  "parse_digits a [] = (a, [])"
| "parse_digits a (c # cs) =
     (if is_digit c then parse_digits (10 * a + (c - 48)) cs else (a, c # cs))"

definition starts_fraction :: "jsstring \<Rightarrow> bool" where
  "starts_fraction r = (case r of [] \<Rightarrow> False | c # cs \<Rightarrow> c = 46 \<or> c = 101 \<or> c = 69)"

definition parse_integer :: "bool \<Rightarrow> jsstring \<Rightarrow> (jsval \<times> jsstring) parsed" where
  "parse_integer negative ds =
     (case ds of
        [] \<Rightarrow> Syntax_Error
      | d # r \<Rightarrow>
          if \<not> is_digit d then Syntax_Error
          else
            let (n, rest) = (if d = 48 then (0, r) else parse_digits 0 (d # r))
            in if starts_fraction rest then Unmodelled
               else if int n > max_safe_integer then Unmodelled
               else Parsed (JNum (if negative then - int n else int n), rest))"

definition parse_number :: "jsstring \<Rightarrow> (jsval \<times> jsstring) parsed" where
  "parse_number s =
     (case s of
        [] \<Rightarrow> Syntax_Error
      | c # cs \<Rightarrow> if c = 45 then parse_integer True cs else parse_integer False (c # cs))"

text \<open>
  The recursive-descent parser. The first argument bounds the number of calls; of any
  two calls in a row one consumes a character, so twice the length of the text is
  enough.
\<close>

fun parse_value :: "nat \<Rightarrow> jsstring \<Rightarrow> (jsval \<times> jsstring) parsed"
  and parse_elements :: "nat \<Rightarrow> jsval list \<Rightarrow> jsstring \<Rightarrow> (jsval \<times> jsstring) parsed"
  and parse_members :: "nat \<Rightarrow> (jsstring \<times> jsval) list \<Rightarrow> jsstring \<Rightarrow> (jsval \<times> jsstring) parsed"
where
  "parse_value 0 s = Out_Of_Fuel"
| "parse_value (Suc n) s =
     (case skip_ws s of
        [] \<Rightarrow> Syntax_Error
      | c # cs \<Rightarrow>
          if c = 110 then
            (if take 3 cs = [117, 108, 108] then Parsed (JNull, drop 3 cs) else Syntax_Error)
          else if c = 116 then
            (if take 3 cs = [114, 117, 101] then Parsed (JBool True, drop 3 cs) else Syntax_Error)
          else if c = 102 then
            (if take 4 cs = [97, 108, 115, 101] then Parsed (JBool False, drop 4 cs)
             else Syntax_Error)
          else if c = 34 then and_then (parse_chars cs) (\<lambda>(str, r). Parsed (JStr str, r))
          else if c = 91 then
            (case skip_ws cs of
               [] \<Rightarrow> Syntax_Error
             | d # r \<Rightarrow> if d = 93 then Parsed (JArr [], r) else parse_elements n [] cs)
          else if c = 123 then
            (case skip_ws cs of
               [] \<Rightarrow> Syntax_Error
             | d # r \<Rightarrow> if d = 125 then Parsed (JObj [], r) else parse_members n [] cs)
          else if c = 45 \<or> is_digit c then parse_number (c # cs)
          else Syntax_Error)"
| "parse_elements 0 acc s = Out_Of_Fuel"
| "parse_elements (Suc n) acc s =
     and_then (parse_value n s) (\<lambda>(v, r).
       case skip_ws r of
         [] \<Rightarrow> Syntax_Error
       | d # r' \<Rightarrow>
           if d = 44 then parse_elements n (acc @ [v]) r'
           else if d = 93 then Parsed (JArr (acc @ [v]), r')
           else Syntax_Error)"
| "parse_members 0 acc s = Out_Of_Fuel"
| "parse_members (Suc n) acc s =
     (case skip_ws s of
        [] \<Rightarrow> Syntax_Error
      | c # cs \<Rightarrow>
          if c \<noteq> 34 then Syntax_Error
          else and_then (parse_chars cs) (\<lambda>(k, r).
            case skip_ws r of
              [] \<Rightarrow> Syntax_Error
            | d # r1 \<Rightarrow>
                if d \<noteq> 58 then Syntax_Error
                else if digits_only k then Unmodelled
                else and_then (parse_value n r1) (\<lambda>(v, r2).
                  case skip_ws r2 of
                    [] \<Rightarrow> Syntax_Error
                  | e # r3 \<Rightarrow>
                      if e = 44 then parse_members n (obj_set k v acc) r3
                      else if e = 125 then Parsed (JObj (obj_set k v acc), r3)
                      else Syntax_Error)))"

definition JSON_parse :: "jsstring \<Rightarrow> jsval parsed" where
  "JSON_parse s =
     and_then (parse_value (Suc (length s + length s)) s) (\<lambda>(v, r).
       if skip_ws r = [] then Parsed v else Syntax_Error)"

section \<open>The contact store (server.js)\<close>

text \<open>
  What a handler can throw: an I/O error with its \<open>code\<close>, the \<open>SyntaxError\<close> of
  \<open>JSON.parse\<close>, a \<open>TypeError\<close>. \<open>Not_Modelled\<close> is no JavaScript error: it marks a
  document the parser leaves outside the model.
\<close>

datatype js_error = IOError string | SyntaxError | TypeError | Not_Modelled

fun bind_err :: "'e + 'a \<Rightarrow> ('a \<Rightarrow> 'e + 'b) \<Rightarrow> 'e + 'b" where
  "bind_err (Inl e) f = Inl e"
| "bind_err (Inr x) f = f x"

text \<open>
  How the file system fails a write, with the error's code. Either the file cannot be
  opened (\<open>EACCES\<close>, \<open>EROFS\<close>) and stays as it was. Or it is opened, which empties it
  (\<open>fs.writeFile\<close> opens with the flag \<open>w\<close>), and the write stops after a number of code
  units (\<open>ENOSPC\<close>, \<open>EIO\<close>): the file is left with that much of the text, and where the
  cut falls inside a character of more than one byte, reading the file back as UTF-8
  gives U+FFFD in its place.
\<close>

datatype write_failure = Not_Opened string | Cut_Short string nat bool

definition cut_short :: "nat \<Rightarrow> bool \<Rightarrow> jsstring \<Rightarrow> jsstring" where
  "cut_short k inside data =
     (if k < length data then take k data @ (if inside then [65533] else []) else data)"

text \<open>
  The world outside the process: the text of \<open>contacts.json\<close> (\<open>None\<close> when the file
  does not exist), the error code, if any, with which the file system refuses a read,
  and the way, if any, in which it fails a write.
\<close>

record world =
  document :: "jsstring option"
  read_fault :: "string option"
  write_fault :: "write_failure option"

definition fs_readFile :: "world \<Rightarrow> js_error + jsstring" where
  "fs_readFile w =
     (case read_fault w of
        Some code \<Rightarrow> Inl (IOError code)
      | None \<Rightarrow>
          (case document w of
             None \<Rightarrow> Inl (IOError ''ENOENT'')
           | Some data \<Rightarrow> Inr data))"

text \<open>
  A call that writes returns the world it leaves, also when it throws: \<open>Inl\<close> carries the
  error and the world after the failed write.
\<close>

definition fs_writeFile :: "jsstring \<Rightarrow> world \<Rightarrow> (js_error \<times> world) + world" where
  "fs_writeFile data w =
     (case write_fault w of
        None \<Rightarrow> Inr (w\<lparr>document := Some data\<rparr>)
      | Some (Not_Opened code) \<Rightarrow> Inl (IOError code, w)
      | Some (Cut_Short code k inside) \<Rightarrow>
          Inl (IOError code, w\<lparr>document := Some (cut_short k inside data)\<rparr>))"

definition JSON_parse_throwing :: "jsstring \<Rightarrow> js_error + jsval" where
  "JSON_parse_throwing data =
     (case JSON_parse data of
        Parsed v \<Rightarrow> Inr v
      | Syntax_Error \<Rightarrow> Inl SyntaxError
      | Unmodelled \<Rightarrow> Inl Not_Modelled
      | Out_Of_Fuel \<Rightarrow> Inl Not_Modelled)"

text \<open>
  \<open>readContacts\<close>: the \<open>try\<close> block reads and parses; the \<open>catch\<close> block turns a missing
  file and a \<open>SyntaxError\<close> into the empty array and throws every other error again.
\<close>

definition readContacts :: "world \<Rightarrow> js_error + jsval" where
  "readContacts w =
     (case bind_err (fs_readFile w) JSON_parse_throwing of
        Inr v \<Rightarrow> Inr v
      | Inl e \<Rightarrow>
          if e = IOError ''ENOENT'' \<or> e = SyntaxError then Inr (JArr []) else Inl e)"

definition writeContacts :: "jsval \<Rightarrow> world \<Rightarrow> (js_error \<times> world) + world" where
  "writeContacts contacts w = fs_writeFile (JSON_stringify contacts) w"

section \<open>The contact API (server.js)\<close>

datatype payload = Json jsval | Text string

text \<open>
  A response is its status and body; \<open>Outside_Model\<close> stands where the stored document
  is outside the model and nothing is said about the answer.
\<close>

datatype response = Response nat payload | Outside_Model

definition message_body :: "string \<Rightarrow> payload" where
  "message_body m = Json (JObj [(js_of ''message'', JStr (js_of m))])"

definition on_error :: "string \<Rightarrow> js_error \<Rightarrow> response" where
  "on_error m e = (if e = Not_Modelled then Outside_Model else Response 500 (message_body m))"

text \<open>\<open>GET /api/contacts\<close>.\<close>

definition get_contacts :: "world \<Rightarrow> response" where
  "get_contacts w =
     (case readContacts w of
        Inr contacts \<Rightarrow> Response 200 (Json contacts)
      | Inl e \<Rightarrow> on_error ''Error interno del servidor al obtener contactos.'' e)"

text \<open>
  Reading \<open>o.k\<close> for a key that no prototype defines (\<open>nombre\<close>, \<open>apellido\<close>,
  \<open>telefono\<close>): the own property of an object, \<open>undefined\<close> on an array or a primitive
  (a boolean, a number, a string), a \<open>TypeError\<close> on \<open>null\<close>.
\<close>

fun get_member :: "jsval \<Rightarrow> jsstring \<Rightarrow> js_error + jsval option" where
  "get_member JNull k = Inl TypeError"
| "get_member (JObj ms) k = Inr (map_of ms k)"
| "get_member v k = Inr None"

text \<open>
  \<open>o.k = v\<close>, as far as \<open>JSON.stringify\<close> can see it afterwards: it changes an object;
  a named property of an array is not serialised, and on a primitive the assignment is
  dropped.
\<close>

fun set_member :: "jsval \<Rightarrow> jsstring \<Rightarrow> jsval \<Rightarrow> jsval" where
  "set_member (JObj ms) k v = JObj (obj_set k v ms)"
| "set_member u k v = u"

text \<open>\<open>contacts.push(x)\<close>: only an array has \<open>push\<close>; on anything else the call throws.\<close>

fun array_push :: "jsval \<Rightarrow> jsval \<Rightarrow> js_error + jsval" where
  "array_push (JArr vs) x = Inr (JArr (vs @ [x]))"
| "array_push v x = Inl TypeError"

definition k_nombre :: jsstring where "k_nombre = js_of ''nombre''"
definition k_apellido :: jsstring where "k_apellido = js_of ''apellido''"
definition k_telefono :: jsstring where "k_telefono = js_of ''telefono''"
definition k_id :: jsstring where "k_id = js_of ''id''"

text \<open>\<open>!newContact.nombre || !newContact.apellido || !newContact.telefono\<close>, left to right.\<close>

definition fields_missing :: "jsval \<Rightarrow> js_error + bool" where
  "fields_missing newContact =
     bind_err (get_member newContact k_nombre) (\<lambda>nombre.
       if \<not> truthy_opt nombre then Inr True
       else bind_err (get_member newContact k_apellido) (\<lambda>apellido.
         if \<not> truthy_opt apellido then Inr True
         else bind_err (get_member newContact k_telefono) (\<lambda>telefono.
           Inr (\<not> truthy_opt telefono))))"

text \<open>A step that writes nothing: when it throws, the world is the one it was run in.\<close>

definition in_world :: "world \<Rightarrow> js_error + 'a \<Rightarrow> (js_error \<times> world) + 'a" where
  "in_world w r = (case r of Inl e \<Rightarrow> Inl (e, w) | Inr x \<Rightarrow> Inr x)"

text \<open>
  \<open>POST /api/contacts\<close>: the \<open>try\<close> block, with \<open>Date.now()\<close> and \<open>req.body\<close> as
  arguments, and then the handler with its \<open>catch\<close>.
\<close>

definition post_attempt ::
  "int \<Rightarrow> jsval \<Rightarrow> world \<Rightarrow> (js_error \<times> world) + (response \<times> world)" where
  "post_attempt now newContact w =
     bind_err (in_world w (fields_missing newContact)) (\<lambda>missing.
       if missing then
         Inr (Response 400
               (message_body ''Faltan campos obligatorios: nombre, apellido o telefono.''), w)
       else
         bind_err (in_world w (readContacts w)) (\<lambda>contacts.
           bind_err
             (in_world w
               (array_push contacts (set_member newContact k_id (JStr (number_toString now)))))
             (\<lambda>contacts'.
               bind_err (writeContacts contacts' w) (\<lambda>w'.
                 Inr (Response 201 (Text ''Contacto agregado exitosamente''), w')))))"

definition post_contacts :: "int \<Rightarrow> jsval \<Rightarrow> world \<Rightarrow> response \<times> world" where
  "post_contacts now newContact w =
     (case post_attempt now newContact w of
        Inr r \<Rightarrow> r
      | Inl (e, w') \<Rightarrow> (on_error ''Error interno del servidor al agregar contacto.'' e, w'))"

section \<open>The client's validator (Script.js)\<close>

text \<open>
  The characters \<open>\\s\<close> matches and \<open>trim\<close> removes: the white space and the line
  terminators of ECMAScript.
\<close>

definition is_space :: "jschar \<Rightarrow> bool" where
  "is_space c =
     ((9 \<le> c \<and> c \<le> 13) \<or> c = 32 \<or> c = 160 \<or> c = 5760 \<or> (8192 \<le> c \<and> c \<le> 8202)
      \<or> c = 8232 \<or> c = 8233 \<or> c = 8239 \<or> c = 8287 \<or> c = 12288 \<or> c = 65279)"

definition js_trim :: "jsstring \<Rightarrow> jsstring" where
  "js_trim s = rev (dropWhile is_space (rev (dropWhile is_space s)))"

text \<open>\<open>replace(/\\D/g, '')\<close>: what is left are the digits \<open>0\<close> to \<open>9\<close>.\<close>

definition strip_non_digits :: "jsstring \<Rightarrow> jsstring" where
  "strip_non_digits s = filter is_digit s"

definition isValidPhone :: "jsstring \<Rightarrow> bool" where
  "isValidPhone phone =
     (if phone = [] then False
      else let cleanPhone = strip_non_digits phone
           in length cleanPhone \<ge> 7 \<and> length cleanPhone \<le> 15)"

text \<open>
  One character of the class \<open>[a-zA-Z...\\s'-]\<close> of \<open>nameRegex\<close>; the fourteen accented
  letters it lists are a, e, i, o, u with an acute accent in both cases, n with a tilde
  and u with a diaeresis in both cases.
\<close>

definition name_char :: "jschar \<Rightarrow> bool" where
  "name_char c =
     ((97 \<le> c \<and> c \<le> 122) \<or> (65 \<le> c \<and> c \<le> 90)
      \<or> c \<in> set [225, 233, 237, 243, 250, 193, 201, 205, 211, 218, 241, 209, 252, 220]
      \<or> is_space c \<or> c = 39 \<or> c = 45)"

definition nameRegex_test :: "jsstring \<Rightarrow> bool" where
  "nameRegex_test s = (s \<noteq> [] \<and> list_all name_char s)"

definition isValidName :: "jsstring \<Rightarrow> bool" where
  "isValidName name =
     (if name = [] then False
      else nameRegex_test name \<and> length name \<ge> 2 \<and> length name \<le> 50)"

text \<open>\<open>replace(/\\s+/g, ' ')\<close>: every maximal run of white space becomes one space.\<close>

function collapse_spaces :: "jsstring \<Rightarrow> jsstring" where
  "collapse_spaces [] = []"
| "collapse_spaces (c # cs) =
     (if is_space c then 32 # collapse_spaces (dropWhile is_space cs)
      else c # collapse_spaces cs)"
  by pat_completeness auto
termination
  by (relation "measure length") (auto simp: length_dropWhile_le less_Suc_eq_le)

definition sanitizeText :: "jsstring \<Rightarrow> jsstring" where
  "sanitizeText t = (if t = [] then [] else collapse_spaces (js_trim t))"

record contact_data =
  nombre :: jsstring
  apellido :: jsstring
  telefono :: jsstring

definition validateContact :: "contact_data \<Rightarrow> bool \<times> jsstring list" where
  "validateContact contactData =
     (let errors =
        (if nombre contactData = [] then [js_of ''El nombre es obligatorio'']
         else if \<not> isValidName (nombre contactData) then
           [js_of ''El nombre debe contener solo letras y tener entre 2 y 50 caracteres'']
         else [])
        @ (if apellido contactData = [] then [js_of ''El apellido es obligatorio'']
           else if \<not> isValidName (apellido contactData) then
             [js_of ''El apellido debe contener solo letras y tener entre 2 y 50 caracteres'']
           else [])
        @ (if telefono contactData = [] then [js_of ''El tel'' @ [233] @ js_of ''fono es obligatorio'']
           else if \<not> isValidPhone (telefono contactData) then
             [js_of ''El tel'' @ [233] @ js_of ''fono debe tener entre 7 y 15 d''
                @ [237] @ js_of ''gitos'']
           else [])
      in (errors = [], errors))"

text \<open>
  \<open>Agenda.handleFormSubmit\<close>, up to the call of \<open>addContact\<close>: the form's three fields
  (\<open>None\<close> where \<open>formData.get\<close> returns \<open>null\<close>) are trimmed, validated and sanitised.
  The result is what is handed to \<open>addContact\<close>, the errors shown, or nothing when a
  request is already running or the page has no form (\<open>contactForm\<close> is \<open>null\<close>).
\<close>

record form_data =
  form_nombre :: "jsstring option"
  form_apellido :: "jsstring option"
  form_telefono :: "jsstring option"

datatype submit_result = Ignored | Rejected "jsstring list" | Submitted contact_data

definition or_empty :: "jsstring option \<Rightarrow> jsstring" where
  "or_empty x = (case x of None \<Rightarrow> [] | Some s \<Rightarrow> s)"

definition handleFormSubmit :: "bool \<Rightarrow> form_data option \<Rightarrow> submit_result" where
  "handleFormSubmit isLoading contactForm =
     (case contactForm of
        None \<Rightarrow> Ignored
      | Some formData \<Rightarrow>
      if isLoading then Ignored
      else
        let contactData =
              \<lparr>nombre = js_trim (or_empty (form_nombre formData)),
               apellido = js_trim (or_empty (form_apellido formData)),
               telefono = js_trim (or_empty (form_telefono formData))\<rparr>;
            validation = validateContact contactData
        in if \<not> fst validation then Rejected (snd validation)
           else Submitted
                  \<lparr>nombre = sanitizeText (nombre contactData),
                   apellido = sanitizeText (apellido contactData),
                   telefono = strip_non_digits (telefono contactData)\<rparr>)"

text \<open>
  A request body made of a contact's three fields, each a string: the value
  \<open>express.json()\<close> hands to a handler for a request whose body is \<open>JSON.stringify\<close>
  of such an object.
\<close>

definition request_body :: "contact_data \<Rightarrow> jsval" where
  "request_body c =
     JObj [(k_nombre, JStr (nombre c)), (k_apellido, JStr (apellido c)),
           (k_telefono, JStr (telefono c))]"

section \<open>Well-formed values\<close>

text \<open>
  The values the parser of the model returns (\<open>JSON_parse_wf\<close> below), so every
  document read back is one: every number is an integer of at most \<open>2^53 - 1\<close> in
  magnitude, and in every object the keys are distinct and none is made of digits only.
\<close>

fun wf :: "jsval \<Rightarrow> bool"
  and wf_elements :: "jsval list \<Rightarrow> bool"
  and wf_members :: "(jsstring \<times> jsval) list \<Rightarrow> bool"
where
  "wf JNull = True"
| "wf (JBool b) = True"
| "wf (JNum n) = (\<bar>n\<bar> \<le> max_safe_integer)"
| "wf (JInfinity negative) = False"
| "wf (JStr s) = True"
| "wf (JArr vs) = wf_elements vs"
| "wf (JObj ms) = (distinct (map fst ms) \<and> wf_members ms)"
| "wf_elements [] = True"
| "wf_elements (v # vs) = (wf v \<and> wf_elements vs)"
| "wf_members [] = True"
| "wf_members ((k, v) # ms) = (\<not> digits_only k \<and> wf v \<and> wf_members ms)"

text \<open>The number of calls the parser needs to read a value back; used in proofs only.\<close>

fun cost :: "jsval \<Rightarrow> nat"
  and cost_elements :: "jsval list \<Rightarrow> nat"
  and cost_members :: "(jsstring \<times> jsval) list \<Rightarrow> nat"
where
  "cost JNull = 1"
| "cost (JBool b) = 1"
| "cost (JNum n) = 1"
| "cost (JInfinity negative) = 1"
| "cost (JStr s) = 1"
| "cost (JArr vs) = Suc (cost_elements vs)"
| "cost (JObj ms) = Suc (cost_members ms)"
| "cost_elements [] = 0"
| "cost_elements (v # vs) = Suc (cost v + cost_elements vs)"
| "cost_members [] = 0"
| "cost_members ((k, v) # ms) = Suc (cost v + cost_members ms)"

text \<open>The first character of a serialised value; used in proofs only.\<close>

definition starts_value :: "jsstring \<Rightarrow> bool" where
  "starts_value s =
     (case s of [] \<Rightarrow> False
      | c # cs \<Rightarrow>
          c = 110 \<or> c = 116 \<or> c = 102 \<or> c = 34 \<or> c = 91 \<or> c = 123 \<or> c = 45 \<or> is_digit c)"

text \<open>What may follow a number in a document: anything but a digit, a point or an exponent.\<close>

definition ends_number :: "jsstring \<Rightarrow> bool" where
  "ends_number r =
     (case r of [] \<Rightarrow> True
      | c # cs \<Rightarrow> \<not> is_digit c \<and> c \<noteq> 46 \<and> c \<noteq> 101 \<and> c \<noteq> 69)"

text \<open>
  What a file cut short reads back as, after the part of the text that was written:
  nothing, or U+FFFD; used in proofs only.
\<close>

definition cut_tail :: "jsstring \<Rightarrow> bool" where
  "cut_tail t = (t = [] \<or> t = [65533])"

text \<open>
  What is read back of a value once written: \<open>JSON.stringify\<close> writes an infinity as
  \<open>null\<close>, wherever in the value it stands, and everything else as it is.
\<close>

fun json_image :: "jsval \<Rightarrow> jsval"
  and json_image_elements :: "jsval list \<Rightarrow> jsval list"
  and json_image_members :: "(jsstring \<times> jsval) list \<Rightarrow> (jsstring \<times> jsval) list"
where
  "json_image JNull = JNull"
| "json_image (JBool b) = JBool b"
| "json_image (JNum n) = JNum n"
| "json_image (JInfinity negative) = JNull"
| "json_image (JStr s) = JStr s"
| "json_image (JArr vs) = JArr (json_image_elements vs)"
| "json_image (JObj ms) = JObj (json_image_members ms)"
| "json_image_elements [] = []"
| "json_image_elements (v # vs) = json_image v # json_image_elements vs"
| "json_image_members [] = []"
| "json_image_members ((k, v) # ms) = (k, json_image v) # json_image_members ms"

text \<open>
  The request bodies of the model: the values \<open>express.json()\<close> can hand to a handler,
  which are those of the parser and, in the place of any number, an infinity.
\<close>

definition request_value :: "jsval \<Rightarrow> bool" where
  "request_value b = wf (json_image b)"

section \<open>Vocabulary of the statements\<close>

text \<open>
  The contact the handler pushes: the request body after
  \<open>newContact.id = Date.now().toString()\<close>.
\<close>

definition new_contact :: "int \<Rightarrow> jsval \<Rightarrow> jsval" where
  "new_contact now newContact = set_member newContact k_id (JStr (number_toString now))"

text \<open>
  Reading a field of a value: as a string, if it is one; whether it is truthy; whether
  it is missing or the empty string; whether it is a non-empty string.
\<close>

definition string_field :: "jsval \<Rightarrow> jsstring \<Rightarrow> jsstring option" where
  "string_field c k = (case get_member c k of Inr (Some (JStr s)) \<Rightarrow> Some s | _ \<Rightarrow> None)"

definition truthy_field :: "jsval \<Rightarrow> jsstring \<Rightarrow> bool" where
  "truthy_field c k = (case get_member c k of Inr x \<Rightarrow> truthy_opt x | Inl e \<Rightarrow> False)"

definition absent_or_empty :: "jsval \<Rightarrow> jsstring \<Rightarrow> bool" where
  "absent_or_empty c k = (get_member c k = Inr None \<or> get_member c k = Inr (Some (JStr [])))"

definition nonempty_string_field :: "jsval \<Rightarrow> jsstring \<Rightarrow> bool" where
  "nonempty_string_field c k = (case string_field c k of Some s \<Rightarrow> s \<noteq> [] | None \<Rightarrow> False)"

text \<open>A valid create request: \<open>nombre\<close>, \<open>apellido\<close> and \<open>telefono\<close> are non-empty strings.\<close>

definition valid_request :: "jsval \<Rightarrow> bool" where
  "valid_request b =
     (nonempty_string_field b k_nombre \<and> nonempty_string_field b k_apellido
      \<and> nonempty_string_field b k_telefono)"

text \<open>
  The file system serves reads and writes; the world after \<open>writeContacts\<close> has stored a
  sequence; the answer of a successful Create.
\<close>

definition serving :: "world \<Rightarrow> bool" where
  "serving w = (read_fault w = None \<and> write_fault w = None)"

definition stored :: "jsval list \<Rightarrow> world \<Rightarrow> world" where
  "stored cs w = w\<lparr>document := Some (JSON_stringify (JArr cs))\<rparr>"

definition created :: response where
  "created = Response 201 (Text ''Contacto agregado exitosamente'')"

section \<open>The invariant of the persisted collection\<close>

text \<open>
  The persisted collection is what \<open>readContacts\<close> makes of the document when the read
  is served. A property holds of the persisted collection when that is a sequence and
  the property holds of every element of it; a document that is no sequence, or that the
  model does not read, does not satisfy any invariant.
\<close>

definition persisted :: "world \<Rightarrow> js_error + jsval" where
  "persisted w = readContacts (w\<lparr>read_fault := None\<rparr>)"

definition store_invariant :: "(jsval \<Rightarrow> bool) \<Rightarrow> world \<Rightarrow> bool" where
  "store_invariant P w = (case persisted w of Inr (JArr cs) \<Rightarrow> list_all P cs | _ \<Rightarrow> False)"

text \<open>
  The invariant in the specification's words: a non-empty \<open>id\<close>, first name and last
  name, and a phone with 7 to 15 digits.
\<close>

definition phone_in_bound :: "jsval \<Rightarrow> bool" where
  "phone_in_bound c =
     (case string_field c k_telefono of
        Some t \<Rightarrow> 7 \<le> length (strip_non_digits t) \<and> length (strip_non_digits t) \<le> 15
      | None \<Rightarrow> False)"

definition spec_contact_ok :: "jsval \<Rightarrow> bool" where
  "spec_contact_ok c =
     (nonempty_string_field c k_id \<and> nonempty_string_field c k_nombre
      \<and> nonempty_string_field c k_apellido \<and> phone_in_bound c)"

text \<open>
  What the handler's check leaves in the document. The check passes a field that is
  truthy in the request; written and read back, such a value is itself, or \<open>null\<close> where
  it was an infinity. So a kept field is present and is truthy or \<open>null\<close>: it is not
  \<open>false\<close>, \<open>0\<close> or the empty string, and need not be a string. The \<open>id\<close> is a non-empty
  string.
\<close>

definition kept_field :: "jsval \<Rightarrow> jsstring \<Rightarrow> bool" where
  "kept_field c k =
     (case get_member c k of Inr (Some v) \<Rightarrow> truthy v \<or> v = JNull | _ \<Rightarrow> False)"

definition server_contact_ok :: "jsval \<Rightarrow> bool" where
  "server_contact_ok c =
     (nonempty_string_field c k_id \<and> kept_field c k_nombre
      \<and> kept_field c k_apellido \<and> kept_field c k_telefono)"

section \<open>The field rules in the specification's words\<close>

text \<open>
  The rule for names as the specification words it: letters (accented letters
  included), spaces, hyphens and apostrophes only, length 2 to 50. Letters are read
  narrowly here, as the letters of Latin-1: the unaccented \<open>a\<close> to \<open>z\<close> and \<open>A\<close> to \<open>Z\<close>
  and the accented letters from U+00C0 to U+00FF (without the multiplication and
  division signs); a space is U+0020.
\<close>

definition spec_letter :: "jschar \<Rightarrow> bool" where
  "spec_letter c =
     ((97 \<le> c \<and> c \<le> 122) \<or> (65 \<le> c \<and> c \<le> 90)
      \<or> (192 \<le> c \<and> c \<le> 255 \<and> c \<noteq> 215 \<and> c \<noteq> 247))"

definition spec_valid_name :: "jsstring \<Rightarrow> bool" where
  "spec_valid_name n =
     (n \<noteq> [] \<and> list_all (\<lambda>c. spec_letter c \<or> c = 32 \<or> c = 45 \<or> c = 39) n
      \<and> 2 \<le> length n \<and> length n \<le> 50)"

section \<open>JSON.parse reads back what JSON.stringify writes\<close>

lemma js_of_simps: "js_of [] = []" "js_of (c # cs) = of_char c # js_of cs"
  by (simp_all add: js_of_def)

lemma and_then_weak_cong [cong]: "m = m' \<Longrightarrow> and_then m f = and_then m' f"
  by simp

lemma hexval_hexdigit: "d < 16 \<Longrightarrow> hexval (hexdigit d) = Some d"
  by (auto simp: hexval_def hexdigit_def)

lemma hex4_escape:
  assumes "c < 65536"
  shows "hex4 (hexdigit (c div 4096 mod 16)) (hexdigit (c div 256 mod 16))
           (hexdigit (c div 16 mod 16)) (hexdigit (c mod 16)) = Some c"
proof -
  have a: "c mod 65536 = 4096 * (c div 4096 mod 16) + c mod 4096"
    using mod_mult2_eq [of c 4096 16] by simp
  have b: "c mod 4096 = 256 * (c div 256 mod 16) + c mod 256"
    using mod_mult2_eq [of c 256 16] by simp
  have d: "c mod 256 = 16 * (c div 16 mod 16) + c mod 16"
    using mod_mult2_eq [of c 16 16] by simp
  have "c mod 65536 = c"
    using assms by simp
  with a b d
  have "c div 4096 mod 16 * 4096 + c div 256 mod 16 * 256 + c div 16 mod 16 * 16 + c mod 16 = c"
    by linarith
  then show ?thesis
    unfolding hex4_def
    by (simp only: hexval_hexdigit [OF mod_less_divisor [OF zero_less_numeral]]
          prod.case option.case)
qed

lemma parse_unicode_escape:
  assumes "c < 65536"
  shows "parse_chars (unicode_escape c @ s) =
           and_then (parse_chars s) (\<lambda>(str, r'). Parsed (c # str, r'))"
  using hex4_escape [OF assms] by (simp add: unicode_escape_def)

lemma parse_quote_chars: "parse_chars (quote_chars s @ 34 # rest) = Parsed (s, rest)"
proof (induction "length s" arbitrary: s rule: less_induct)
  case less
  show ?case
  proof (cases s)
    case Nil
    then show ?thesis by simp
  next
    case (Cons c cs)
    have IH: "parse_chars (quote_chars cs @ 34 # rest) = Parsed (cs, rest)"
      using less [of cs] Cons by simp
    have lt: "c < 32 \<or> is_high_surrogate c \<or> is_low_surrogate c \<Longrightarrow> c < 65536"
      by (auto simp: is_high_surrogate_def is_low_surrogate_def)
    show ?thesis
    proof (cases "c = 8 \<or> c = 9 \<or> c = 10 \<or> c = 12 \<or> c = 13 \<or> c = 34 \<or> c = 92")
      case True
      then show ?thesis using IH Cons by (auto simp: unescape_def)
    next
      case special: False
      show ?thesis
      proof (cases "c < 32")
        case True
        then show ?thesis using special IH Cons by (simp add: parse_unicode_escape)
      next
        case ge: False
        show ?thesis
        proof (cases "is_high_surrogate c")
          case high: True
          show ?thesis
          proof (cases cs)
            case Nil
            then show ?thesis using special ge high lt Cons by (simp add: parse_unicode_escape)
          next
            case inner: (Cons d ds)
            show ?thesis
            proof (cases "is_low_surrogate d")
              case True
              then have d: "\<not> d < 32" "d \<noteq> 34" "d \<noteq> 92"
                by (auto simp: is_low_surrogate_def)
              have "parse_chars (quote_chars ds @ 34 # rest) = Parsed (ds, rest)"
                using less [of ds] Cons inner by simp
              then show ?thesis using special ge high True Cons inner d by simp
            next
              case False
              then show ?thesis
                using special ge high Cons inner IH lt by (simp add: parse_unicode_escape)
            qed
          qed
        next
          case nothigh: False
          show ?thesis
          proof (cases "is_low_surrogate c")
            case True
            then show ?thesis
              using special ge nothigh IH lt Cons by (simp add: parse_unicode_escape)
          next
            case False
            then show ?thesis using special ge nothigh IH Cons by simp
          qed
        qed
      qed
    qed
  qed
qed

lemma skip_ws_Cons: "skip_ws (c # s) = (if is_ws c then skip_ws s else c # s)"
  by (simp add: skip_ws_def)

lemma skip_ws_Nil: "skip_ws [] = []"
  by (simp add: skip_ws_def)

lemma skip_ws_spaces: "skip_ws (spaces k @ s) = skip_ws s"
  by (induction k) (simp_all add: spaces_def skip_ws_def is_ws_def)

lemma skip_ws_indent: "skip_ws (10 # spaces k @ s) = skip_ws s"
  by (simp add: skip_ws_Cons is_ws_def skip_ws_spaces)

lemma skip_ws_idem: "skip_ws (skip_ws s) = skip_ws s"
  by (induction s) (simp_all add: skip_ws_Cons skip_ws_Nil)

lemma parse_value_skip: "parse_value n (skip_ws s) = parse_value n s"
  by (cases n) (simp_all add: skip_ws_idem)

lemma parse_elements_skip: "parse_elements n acc (skip_ws s) = parse_elements n acc s"
  by (cases n) (simp_all add: parse_value_skip)

lemma parse_members_skip: "parse_members n acc (skip_ws s) = parse_members n acc s"
  by (cases n) (simp_all add: skip_ws_idem)

lemma nat_digits_nonempty: "nat_digits n \<noteq> []"
  by (subst nat_digits.simps) simp

lemma number_toString_nonempty: "number_toString n \<noteq> []"
  by (simp add: number_toString_def nat_digits_nonempty)

lemma value_nat_digits: "foldl (\<lambda>a c. 10 * a + (c - 48)) 0 (nat_digits n) = n"
proof (induction n rule: nat_digits.induct)
  case (1 n)
  show ?case
  proof (cases "n < 10")
    case True
    then show ?thesis by (subst nat_digits.simps) simp
  next
    case False
    then show ?thesis using 1 by (subst nat_digits.simps) simp
  qed
qed

lemma nat_digits_inj: "nat_digits m = nat_digits n \<Longrightarrow> m = n"
  by (metis value_nat_digits)

lemma nat_digits_chars: "c \<in> set (nat_digits n) \<Longrightarrow> 48 \<le> c \<and> c \<le> 57"
proof (induction n rule: nat_digits.induct)
  case (1 n)
  show ?case
  proof (cases "n < 10")
    case True
    then show ?thesis using "1.prems" by (subst (asm) nat_digits.simps) simp
  next
    case False
    have "n mod 10 < 10" by simp
    then show ?thesis
      using "1.prems" "1.IH" False by (subst (asm) nat_digits.simps) auto
  qed
qed

lemma number_toString_inj: "number_toString m = number_toString n \<Longrightarrow> m = n"
proof -
  assume eq: "number_toString m = number_toString n"
  have no_minus: "nat_digits k \<noteq> 45 # ds" for k ds
  proof
    assume "nat_digits k = 45 # ds"
    then have "45 \<in> set (nat_digits k)" by simp
    from nat_digits_chars [OF this] show False by simp
  qed
  consider "m < 0" "n < 0" | "m < 0" "\<not> n < 0" | "\<not> m < 0" "n < 0" | "\<not> m < 0" "\<not> n < 0"
    by blast
  then show ?thesis
  proof cases
    case 1
    then have "nat (- m) = nat (- n)"
      using eq by (simp add: number_toString_def nat_digits_inj)
    then show ?thesis using 1 by simp
  next
    case 2
    then show ?thesis using eq no_minus by (simp add: number_toString_def) metis
  next
    case 3
    then show ?thesis using eq no_minus by (simp add: number_toString_def)
  next
    case 4
    then have "nat m = nat n"
      using eq by (simp add: number_toString_def nat_digits_inj)
    then show ?thesis using 4 by simp
  qed
qed

lemma parse_digits_stop: "ends_number r \<Longrightarrow> parse_digits a r = (a, r)"
  by (cases r) (simp_all add: ends_number_def)

lemma parse_digits_append:
  "list_all is_digit xs \<Longrightarrow>
   parse_digits a (xs @ r) = parse_digits (foldl (\<lambda>a c. 10 * a + (c - 48)) a xs) r"
  by (induction xs arbitrary: a) simp_all

lemma is_digit_nat_digits: "list_all is_digit (nat_digits n)"
  using nat_digits_chars [of _ n] by (auto simp: list_all_iff is_digit_def)

lemma parse_digits_nat_digits:
  "ends_number r \<Longrightarrow> parse_digits 0 (nat_digits n @ r) = (n, r)"
  by (simp add: parse_digits_append is_digit_nat_digits value_nat_digits parse_digits_stop)

lemma nat_digits_zero: "nat_digits 0 = [48]"
  by (subst nat_digits.simps) simp

lemma hd_nat_digits: "0 < n \<Longrightarrow> \<exists>d ds. nat_digits n = d # ds \<and> is_digit d \<and> d \<noteq> 48"
proof (induction n rule: nat_digits.induct)
  case (1 n)
  show ?case
  proof (cases "n < 10")
    case True
    then show ?thesis using "1.prems" by (subst nat_digits.simps) (simp add: is_digit_def)
  next
    case False
    then have "0 < n div 10" by simp
    from "1.IH" [OF False this] obtain d ds where "nat_digits (n div 10) = d # ds"
      "is_digit d" "d \<noteq> 48" by blast
    then show ?thesis using False by (subst nat_digits.simps) simp
  qed
qed

lemma parse_integer_nat_digits:
  assumes "ends_number r" and "int n \<le> max_safe_integer"
  shows "parse_integer neg (nat_digits n @ r)
           = Parsed (JNum (if neg then - int n else int n), r)"
proof (cases "n = 0")
  case True
  have "\<not> starts_fraction r"
    using assms(1) by (cases r) (simp_all add: ends_number_def starts_fraction_def)
  then show ?thesis
    using True assms(2) by (simp add: parse_integer_def nat_digits_zero is_digit_def)
next
  case False
  then obtain d ds where d: "nat_digits n = d # ds" "is_digit d" "d \<noteq> 48"
    using hd_nat_digits [of n] by auto
  have p: "parse_digits 0 (d # ds @ r) = (n, r)"
    using parse_digits_nat_digits [OF assms(1), of n] d(1) by simp
  have "\<not> starts_fraction r"
    using assms(1) by (cases r) (simp_all add: ends_number_def starts_fraction_def)
  then show ?thesis
    using d p assms(2) by (simp add: parse_integer_def del: parse_digits.simps)
qed

lemma parse_number_toString:
  assumes "ends_number r" and "\<bar>n\<bar> \<le> max_safe_integer"
  shows "parse_number (number_toString n @ r) = Parsed (JNum n, r)"
proof (cases "n < 0")
  case True
  then have "int (nat (- n)) \<le> max_safe_integer" using assms(2) by simp
  from parse_integer_nat_digits [OF assms(1) this, of True] show ?thesis
    using True by (simp add: parse_number_def number_toString_def)
next
  case False
  then have le: "int (nat n) \<le> max_safe_integer" using assms(2) by simp
  obtain d ds where d: "nat_digits (nat n) = d # ds" "is_digit d"
    using is_digit_nat_digits [of "nat n"] nat_digits_nonempty [of "nat n"]
    by (cases "nat_digits (nat n)") auto
  then have "d \<noteq> 45" by (auto simp: is_digit_def)
  then show ?thesis
    using parse_integer_nat_digits [OF assms(1) le, of False] False d
    by (simp add: parse_number_def number_toString_def)
qed

lemma number_toString_head:
  "\<exists>c cs. number_toString n = c # cs \<and> (c = 45 \<or> is_digit c)"
proof (cases "n < 0")
  case True
  then show ?thesis by (simp add: number_toString_def)
next
  case False
  then show ?thesis
    using is_digit_nat_digits [of "nat n"] nat_digits_nonempty [of "nat n"]
    by (cases "nat_digits (nat n)") (auto simp: number_toString_def)
qed

lemma parse_value_number:
  assumes "ends_number r" and "\<bar>n\<bar> \<le> max_safe_integer"
  shows "parse_value (Suc k) (number_toString n @ r) = Parsed (JNum n, r)"
proof -
  obtain c cs where c: "number_toString n = c # cs" "c = 45 \<or> is_digit c"
    using number_toString_head by blast
  then have "\<not> is_ws c" and "c \<noteq> 110" "c \<noteq> 116" "c \<noteq> 102" "c \<noteq> 34" "c \<noteq> 91" "c \<noteq> 123"
    by (auto simp: is_ws_def is_digit_def)
  then have "parse_value (Suc k) ((c # cs) @ r) = parse_number ((c # cs) @ r)"
    using c(2) by (simp add: skip_ws_Cons)
  then show ?thesis
    using parse_number_toString [OF assms] c(1) by simp
qed

lemma starts_value_ser: "starts_value (ser i v @ r)"
proof (cases v)
  case (JNum z)
  then show ?thesis using number_toString_head [of z] by (auto simp: starts_value_def)
next
  case (JArr vs)
  then show ?thesis by (cases vs) (simp_all add: starts_value_def)
next
  case (JObj ms)
  then show ?thesis by (cases ms) (simp_all add: starts_value_def)
qed (simp_all add: starts_value_def quote_json_def)

lemma ser_elements_Cons:
  "ser_elements i (v # vs) =
     ser i v @ (if vs = [] then [] else 44 # 10 # spaces i @ ser_elements i vs)"
  by (cases vs) simp_all

lemma ser_members_Cons:
  "ser_members i ((k, v) # ms) =
     quote_json k @ 58 # 32 # ser i v
       @ (if ms = [] then [] else 44 # 10 # spaces i @ ser_members i ms)"
  by (cases ms) simp_all

lemma obj_set_fresh: "k \<notin> fst ` set acc \<Longrightarrow> obj_set k v acc = acc @ [(k, v)]"
  by (induction acc) auto

lemma parse_value_string:
  "parse_value (Suc n) (quote_json s @ rest) = Parsed (JStr s, rest)"
  by (simp add: quote_json_def skip_ws_Cons is_ws_def parse_quote_chars)

lemma parse_value_indent: "parse_value n (10 # spaces k @ s) = parse_value n s"
  using parse_value_skip [of n "10 # spaces k @ s"] parse_value_skip [of n s]
  by (simp add: skip_ws_indent)

lemma parse_elements_indent:
  "parse_elements n acc (10 # spaces k @ s) = parse_elements n acc s"
  using parse_elements_skip [of n acc "10 # spaces k @ s"] parse_elements_skip [of n acc s]
  by (simp add: skip_ws_indent)

lemma parse_members_indent:
  "parse_members n acc (10 # spaces k @ s) = parse_members n acc s"
  using parse_members_skip [of n acc "10 # spaces k @ s"] parse_members_skip [of n acc s]
  by (simp add: skip_ws_indent)

lemma parse_value_space: "parse_value n (32 # s) = parse_value n s"
  using parse_value_skip [of n "32 # s"] parse_value_skip [of n s]
  by (simp add: skip_ws_Cons is_ws_def)

lemma parse_array_open:
  assumes "starts_value X"
  shows "parse_value (Suc n) (91 # 10 # spaces k @ X) = parse_elements n [] X"
proof -
  obtain d r where X: "X = d # r" and d: "d \<noteq> 93" "\<not> is_ws d"
    using assms by (cases X) (auto simp: starts_value_def is_ws_def is_digit_def)
  have "skip_ws (10 # spaces k @ X) = d # r"
    using X d by (simp add: skip_ws_indent) (simp add: skip_ws_Cons)
  then have "parse_value (Suc n) (91 # 10 # spaces k @ X) = parse_elements n [] (10 # spaces k @ X)"
    using d by (simp add: skip_ws_Cons is_ws_def)
  then show ?thesis by (simp add: parse_elements_indent)
qed

lemma parse_object_open:
  assumes "starts_value X"
  shows "parse_value (Suc n) (123 # 10 # spaces k @ X) = parse_members n [] X"
proof -
  obtain d r where X: "X = d # r" and d: "d \<noteq> 125" "\<not> is_ws d"
    using assms by (cases X) (auto simp: starts_value_def is_ws_def is_digit_def)
  have "skip_ws (10 # spaces k @ X) = d # r"
    using X d by (simp add: skip_ws_indent) (simp add: skip_ws_Cons)
  then have "parse_value (Suc n) (123 # 10 # spaces k @ X) = parse_members n [] (10 # spaces k @ X)"
    using d by (simp add: skip_ws_Cons is_ws_def)
  then show ?thesis by (simp add: parse_members_indent)
qed

lemma parse_elements_step:
  assumes "parse_value n s = Parsed (v, d # r)" and "\<not> is_ws d"
  shows "parse_elements (Suc n) acc s =
           (if d = 44 then parse_elements n (acc @ [v]) r
            else if d = 93 then Parsed (JArr (acc @ [v]), r)
            else Syntax_Error)"
  using assms by (simp add: skip_ws_Cons)

lemma parse_elements_last:
  assumes "parse_value n s = Parsed (v, 10 # spaces j @ 93 # r)"
  shows "parse_elements (Suc n) acc s = Parsed (JArr (acc @ [v]), r)"
  using assms by (simp add: skip_ws_spaces skip_ws_Cons is_ws_def)

lemma parse_members_step:
  assumes "parse_value n s = Parsed (v, r2)" and "\<not> digits_only k"
  shows "parse_members (Suc n) acc (quote_json k @ 58 # 32 # s) =
           (case skip_ws r2 of
              [] \<Rightarrow> Syntax_Error
            | e # r3 \<Rightarrow>
                if e = 44 then parse_members n (obj_set k v acc) r3
                else if e = 125 then Parsed (JObj (obj_set k v acc), r3)
                else Syntax_Error)"
  using assms
  by (simp add: quote_json_def skip_ws_Cons is_ws_def parse_quote_chars parse_value_space)

lemma roundtrip_rec:
  "wf v \<Longrightarrow> cost v \<le> n \<Longrightarrow> ends_number rest \<Longrightarrow>
     parse_value n (ser i v @ rest) = Parsed (v, rest)"
  "vs \<noteq> [] \<Longrightarrow> wf_elements vs \<Longrightarrow> cost_elements vs \<le> n \<Longrightarrow>
     parse_elements n acc (ser_elements i vs @ 10 # spaces j @ 93 # rest)
       = Parsed (JArr (acc @ vs), rest)"
  "ms \<noteq> [] \<Longrightarrow> wf_members ms \<Longrightarrow> distinct (map fst macc @ map fst ms) \<Longrightarrow>
     cost_members ms \<le> n \<Longrightarrow>
     parse_members n macc (ser_members i ms @ 10 # spaces j @ 125 # rest)
       = Parsed (JObj (macc @ ms), rest)"
proof (induction i v and i vs and i ms
    arbitrary: n rest and n acc rest j and n macc rest j
    rule: ser_ser_elements_ser_members.induct)
  case (1 i)
  then obtain n' where "n = Suc n'" by (cases n) auto
  then show ?case by (simp add: skip_ws_Cons is_ws_def)
next
  case (2 i b)
  then obtain n' where "n = Suc n'" by (cases n) auto
  then show ?case by (simp add: skip_ws_Cons is_ws_def)
next
  case (3 i z)
  then obtain n' where "n = Suc n'" by (cases n) auto
  then show ?case using "3.prems" by (simp add: parse_value_number del: parse_value.simps)
next
  case (4 i negative)
  then show ?case by simp
next
  case (5 i s)
  then obtain n' where "n = Suc n'" by (cases n) auto
  then show ?case by (simp add: parse_value_string del: parse_value.simps)
next
  case (6 i)
  then obtain n' where "n = Suc n'" by (cases n) auto
  then show ?case by (simp add: skip_ws_Cons is_ws_def)
next
  case (7 i v vs)
  from "7.prems" obtain n' where n: "n = Suc n'" and c: "cost_elements (v # vs) \<le> n'"
    by (cases n) auto
  have sv: "starts_value (ser_elements (i + 2) (v # vs) @ 10 # spaces i @ 93 # rest)"
    using starts_value_ser [of "i + 2" v] by (simp add: ser_elements_Cons)
  have "parse_elements n' [] (ser_elements (i + 2) (v # vs) @ 10 # spaces i @ 93 # rest)
          = Parsed (JArr ([] @ v # vs), rest)"
    using "7.prems" c by (intro "7.IH") simp_all
  then show ?case
    using parse_array_open [OF sv, of n' "i + 2"] n by simp
next
  case (8 i)
  then obtain n' where "n = Suc n'" by (cases n) auto
  then show ?case by (simp add: skip_ws_Cons is_ws_def)
next
  case (9 i m ms)
  from "9.prems" obtain n' where n: "n = Suc n'" and c: "cost_members (m # ms) \<le> n'"
    by (cases n) auto
  obtain k v where m: "m = (k, v)" by (cases m)
  have sv: "starts_value (ser_members (i + 2) (m # ms) @ 10 # spaces i @ 125 # rest)"
    by (simp add: m ser_members_Cons quote_json_def starts_value_def)
  have "parse_members n' [] (ser_members (i + 2) (m # ms) @ 10 # spaces i @ 125 # rest)
          = Parsed (JObj ([] @ m # ms), rest)"
    using "9.prems" c by (intro "9.IH") simp_all
  then show ?case
    using parse_object_open [OF sv, of n' "i + 2"] n by simp
next
  case (10 i)
  then show ?case by simp
next
  case (11 i v)
  from "11.prems" obtain n' where n: "n = Suc n'" and c: "cost v \<le> n'"
    by (cases n) auto
  have "parse_value n' (ser i v @ 10 # spaces j @ 93 # rest) = Parsed (v, 10 # spaces j @ 93 # rest)"
    using "11.prems" c by (intro "11.IH") (simp_all add: ends_number_def is_digit_def)
  then show ?case
    using n by (simp add: parse_elements_last del: parse_elements.simps)
next
  case (12 i v w vs)
  from "12.prems" obtain n' where n: "n = Suc n'"
    and c: "cost v \<le> n'" "cost_elements (w # vs) \<le> n'"
    by (cases n) auto
  let ?Y = "ser_elements i (w # vs) @ 10 # spaces j @ 93 # rest"
  have v: "parse_value n' (ser i v @ 44 # 10 # spaces i @ ?Y) = Parsed (v, 44 # 10 # spaces i @ ?Y)"
    using "12.prems" c by (intro "12.IH"(1)) (simp_all add: ends_number_def is_digit_def)
  have "parse_elements n' (acc @ [v]) ?Y = Parsed (JArr ((acc @ [v]) @ w # vs), rest)"
    using "12.prems" c by (intro "12.IH"(2)) simp_all
  then show ?case
    using n parse_elements_step [OF v, of acc]
    by (simp add: is_ws_def parse_elements_indent del: parse_elements.simps)
next
  case (13 i)
  then show ?case by simp
next
  case (14 i k v)
  from "14.prems" obtain n' where n: "n = Suc n'" and c: "cost v \<le> n'"
    by (cases n) auto
  have v: "parse_value n' (ser i v @ 10 # spaces j @ 125 # rest)
             = Parsed (v, 10 # spaces j @ 125 # rest)"
    using "14.prems" c by (intro "14.IH") (simp_all add: ends_number_def is_digit_def)
  have k: "\<not> digits_only k" "k \<notin> fst ` set macc"
    using "14.prems" by auto
  show ?case
    using n parse_members_step [OF v k(1), of macc] obj_set_fresh [OF k(2), of v]
    by (simp add: skip_ws_spaces skip_ws_Cons is_ws_def del: parse_members.simps)
next
  case (15 i k v m ms)
  from "15.prems" obtain n' where n: "n = Suc n'"
    and c: "cost v \<le> n'" "cost_members (m # ms) \<le> n'"
    by (cases n) auto
  let ?Y = "ser_members i (m # ms) @ 10 # spaces j @ 125 # rest"
  have v: "parse_value n' (ser i v @ 44 # 10 # spaces i @ ?Y) = Parsed (v, 44 # 10 # spaces i @ ?Y)"
    using "15.prems" c by (intro "15.IH"(1)) (simp_all add: ends_number_def is_digit_def)
  have k: "\<not> digits_only k" "k \<notin> fst ` set macc"
    using "15.prems" by auto
  have "parse_members n' (macc @ [(k, v)]) ?Y = Parsed (JObj ((macc @ [(k, v)]) @ m # ms), rest)"
    using "15.prems" c by (intro "15.IH"(2)) auto
  then show ?case
    using n parse_members_step [OF v k(1), of macc] obj_set_fresh [OF k(2), of v]
    by (simp add: skip_ws_Cons is_ws_def parse_members_indent del: parse_members.simps)
qed

lemma cost_le_length:
  "cost v \<le> length (ser i v)"
  "cost_elements vs \<le> Suc (length (ser_elements i vs))"
  "cost_members ms \<le> Suc (length (ser_members i ms))"
  by (induction i v and i vs and i ms rule: ser_ser_elements_ser_members.induct)
    (simp_all add: quote_json_def Suc_le_eq number_toString_nonempty)

lemma JSON_roundtrip: "wf v \<Longrightarrow> JSON_parse (JSON_stringify v) = Parsed v"
  using roundtrip_rec(1)
      [where v = v and n = "Suc (length (ser 0 v) + length (ser 0 v))" and i = 0 and rest = "[]"]
    cost_le_length(1) [of v 0]
  by (simp add: JSON_parse_def JSON_stringify_def skip_ws_Nil ends_number_def
        del: parse_value.simps)

lemma and_then_Parsed_iff:
  "and_then m f = Parsed y \<longleftrightarrow> (\<exists>x. m = Parsed x \<and> f x = Parsed y)"
  by (cases m) simp_all

lemma wf_elements_append: "wf_elements (xs @ ys) = (wf_elements xs \<and> wf_elements ys)"
  by (induction xs) simp_all

lemma keys_obj_set: "set (map fst (obj_set k v ms)) = insert k (set (map fst ms))"
proof (induction ms)
  case Nil
  show ?case by simp
next
  case (Cons m ms)
  obtain k' v' where m: "m = (k', v')" by (cases m)
  show ?case
  proof (cases "k' = k")
    case True
    then show ?thesis using m by simp
  next
    case False
    have "set (map fst (obj_set k v (m # ms))) = insert k' (set (map fst (obj_set k v ms)))"
      using m False by simp
    also have "\<dots> = insert k' (insert k (set (map fst ms)))"
      by (simp only: Cons.IH)
    finally show ?thesis using m by auto
  qed
qed

lemma parse_members_Suc_elim:
  assumes pm: "parse_members (Suc n) macc s = Parsed (v, r)"
  obtains k r1 a r2 where "\<not> digits_only k" "parse_value n r1 = Parsed (a, r2)"
    "(case skip_ws r2 of [] \<Rightarrow> Syntax_Error
      | e # r3 \<Rightarrow> if e = 44 then parse_members n (obj_set k a macc) r3
          else if e = 125 then Parsed (JObj (obj_set k a macc), r3)
          else Syntax_Error) = Parsed (v, r)"
proof (cases "skip_ws s")
  case Nil
  then show ?thesis using pm by simp
next
  case (Cons c cs)
  show ?thesis
  proof (cases "c = 34")
    case False
    then show ?thesis using pm Cons by simp
  next
    case True
    with pm Cons obtain k r0 where k: "parse_chars cs = Parsed (k, r0)"
      and f: "(case skip_ws r0 of [] \<Rightarrow> Syntax_Error
               | d # r1 \<Rightarrow>
                   if d \<noteq> 58 then Syntax_Error
                   else if digits_only k then Unmodelled
                   else and_then (parse_value n r1) (\<lambda>(v, r2).
                     case skip_ws r2 of [] \<Rightarrow> Syntax_Error
                     | e # r3 \<Rightarrow>
                         if e = 44 then parse_members n (obj_set k v macc) r3
                         else if e = 125 then Parsed (JObj (obj_set k v macc), r3)
                         else Syntax_Error)) = Parsed (v, r)"
      by (auto simp: and_then_Parsed_iff)
    show ?thesis
    proof (cases "skip_ws r0")
      case Nil
      then show ?thesis using f by simp
    next
      case inner: (Cons d r1)
      have d: "d = 58" "\<not> digits_only k"
        using f inner by (auto split: if_splits)
      with f inner obtain a r2 where "parse_value n r1 = Parsed (a, r2)"
        "(case skip_ws r2 of [] \<Rightarrow> Syntax_Error
          | e # r3 \<Rightarrow> if e = 44 then parse_members n (obj_set k a macc) r3
              else if e = 125 then Parsed (JObj (obj_set k a macc), r3)
              else Syntax_Error) = Parsed (v, r)"
        by (auto simp: and_then_Parsed_iff)
      then show ?thesis using d that by blast
    qed
  qed
qed

lemma distinct_obj_set: "distinct (map fst ms) \<Longrightarrow> distinct (map fst (obj_set k v ms))"
proof (induction ms)
  case Nil
  show ?case by simp
next
  case (Cons m ms)
  obtain k' v' where m: "m = (k', v')" by (cases m)
  show ?case
  proof (cases "k' = k")
    case True
    then show ?thesis using Cons.prems m by simp
  next
    case False
    have "k' \<notin> set (map fst (obj_set k v ms))"
      using Cons.prems m False unfolding keys_obj_set by simp
    then show ?thesis using Cons m False by simp
  qed
qed

lemma wf_members_obj_set:
  "wf_members ms \<Longrightarrow> \<not> digits_only k \<Longrightarrow> wf v \<Longrightarrow> wf_members (obj_set k v ms)"
  by (induction ms) auto

lemma parse_digits_length: "length (snd (parse_digits a s)) \<le> length s"
  by (induction s arbitrary: a) (auto simp: le_SucI)

lemma parse_integer_result:
  assumes "parse_integer neg ds = Parsed (v, r)"
  shows "wf v \<and> length r < length ds"
proof (cases ds)
  case Nil
  then show ?thesis using assms by (simp add: parse_integer_def)
next
  case (Cons d r0)
  have d: "is_digit d"
    using assms Cons by (auto simp: parse_integer_def split: if_splits)
  obtain n rest where nr: "(if d = 48 then (0, r0) else parse_digits 0 (d # r0)) = (n, rest)"
    by (cases "if d = 48 then (0, r0) else parse_digits 0 (d # r0)") auto
  have len: "length rest \<le> length r0"
    using nr d parse_digits_length [of "10 * 0 + (d - 48)" r0]
    by (auto split: if_splits)
  have res: "int n \<le> max_safe_integer" "v = JNum (if neg then - int n else int n)" "r = rest"
    using assms Cons d nr
    by (auto simp: parse_integer_def Let_def simp del: parse_digits.simps split: if_splits)
  show ?thesis
    using res len Cons by auto
qed

lemma parse_number_result:
  assumes "parse_number s = Parsed (v, r)"
  shows "wf v \<and> length r < length s"
proof (cases s)
  case Nil
  then show ?thesis using assms by (simp add: parse_number_def)
next
  case (Cons c cs)
  show ?thesis
  proof (cases "c = 45")
    case True
    then have "parse_integer True cs = Parsed (v, r)"
      using assms Cons by (simp add: parse_number_def)
    from parse_integer_result [OF this] show ?thesis using Cons by simp
  next
    case False
    then have "parse_integer False (c # cs) = Parsed (v, r)"
      using assms Cons by (simp add: parse_number_def)
    from parse_integer_result [OF this] show ?thesis using Cons by simp
  qed
qed

lemma parse_number_fuel: "parse_number s \<noteq> Out_Of_Fuel"
  by (auto simp: parse_number_def parse_integer_def Let_def
        simp del: parse_digits.simps split: list.splits if_splits prod.splits)

lemma parse_wf_all:
  "(\<forall>s v r. parse_value n s = Parsed (v, r) \<longrightarrow> wf v) \<and>
   (\<forall>acc s v r. parse_elements n acc s = Parsed (v, r) \<longrightarrow> wf_elements acc \<longrightarrow> wf v) \<and>
   (\<forall>macc s v r. parse_members n macc s = Parsed (v, r) \<longrightarrow> wf_members macc \<longrightarrow>
      distinct (map fst macc) \<longrightarrow> wf v)"
proof (induction n)
  case 0
  show ?case by simp
next
  case (Suc n)
  then have IH1: "\<And>s v r. parse_value n s = Parsed (v, r) \<Longrightarrow> wf v"
    and IH2: "\<And>acc s v r. parse_elements n acc s = Parsed (v, r) \<Longrightarrow> wf_elements acc \<Longrightarrow> wf v"
    and IH3: "\<And>macc s v r. parse_members n macc s = Parsed (v, r) \<Longrightarrow> wf_members macc \<Longrightarrow>
                distinct (map fst macc) \<Longrightarrow> wf v"
    by blast+
  have P1: "wf v" if pv: "parse_value (Suc n) s = Parsed (v, r)" for s v r
  proof (cases "skip_ws s")
    case Nil
    then show ?thesis using pv by simp
  next
    case (Cons c cs)
    consider "v = JNull" | "v = JBool True" | "v = JBool False" | str where "v = JStr str"
      | "v = JArr []" | "v = JObj []"
      | "parse_elements n [] cs = Parsed (v, r)" | "parse_members n [] cs = Parsed (v, r)"
      | "parse_number (c # cs) = Parsed (v, r)"
      using pv Cons
      by (auto simp: and_then_Parsed_iff split: if_splits list.splits)
    then show ?thesis
    proof cases
      case 7
      then show ?thesis using IH2 [of "[]"] by simp
    next
      case 8
      then show ?thesis using IH3 [of "[]"] by simp
    next
      case 9
      then show ?thesis using parse_number_result by blast
    qed simp_all
  qed
  have P2: "wf v" if pe: "parse_elements (Suc n) acc s = Parsed (v, r)" and acc: "wf_elements acc"
    for acc s v r
  proof -
    from pe obtain a b where a: "parse_value n s = Parsed (a, b)"
      and rest: "(case skip_ws b of [] \<Rightarrow> Syntax_Error
                  | d # r' \<Rightarrow> if d = 44 then parse_elements n (acc @ [a]) r'
                      else if d = 93 then Parsed (JArr (acc @ [a]), r') else Syntax_Error)
                 = Parsed (v, r)"
      by (auto simp: and_then_Parsed_iff)
    have acc': "wf_elements (acc @ [a])"
      using acc IH1 [OF a] by (simp add: wf_elements_append)
    from rest show ?thesis
      using acc' IH2 [of "acc @ [a]"] by (auto split: list.splits if_splits)
  qed
  have P3: "wf v"
    if pm: "parse_members (Suc n) macc s = Parsed (v, r)" and macc: "wf_members macc"
      and dist: "distinct (map fst macc)"
    for macc s v r
  proof -
    from pm obtain k r1 a r2 where k: "\<not> digits_only k"
      and a: "parse_value n r1 = Parsed (a, r2)"
      and rest: "(case skip_ws r2 of [] \<Rightarrow> Syntax_Error
                  | e # r3 \<Rightarrow> if e = 44 then parse_members n (obj_set k a macc) r3
                      else if e = 125 then Parsed (JObj (obj_set k a macc), r3)
                      else Syntax_Error)
                 = Parsed (v, r)"
      by (rule parse_members_Suc_elim)
    have macc': "wf_members (obj_set k a macc)" "distinct (map fst (obj_set k a macc))"
      using macc dist k IH1 [OF a] by (simp_all add: wf_members_obj_set distinct_obj_set)
    from rest show ?thesis
      using macc' IH3 [of "obj_set k a macc"] by (auto split: list.splits if_splits)
  qed
  from P1 P2 P3 show ?case by blast
qed

lemma JSON_parse_wf: "JSON_parse s = Parsed v \<Longrightarrow> wf v"
  using parse_wf_all [of "Suc (length s + length s)"]
  by (auto simp: JSON_parse_def and_then_Parsed_iff simp del: parse_value.simps split: if_splits)

text \<open>So the well-formed values are exactly the values \<open>JSON_parse\<close> returns.\<close>

lemma wf_iff_parsed: "wf v \<longleftrightarrow> (\<exists>s. JSON_parse s = Parsed v)"
  using JSON_roundtrip JSON_parse_wf by blast

section \<open>The bound on the parser's calls is never reached\<close>

lemma and_then_Out_Of_Fuel_iff:
  "and_then m f = Out_Of_Fuel \<longleftrightarrow> m = Out_Of_Fuel \<or> (\<exists>x. m = Parsed x \<and> f x = Out_Of_Fuel)"
  by (cases m) simp_all

lemma skip_ws_length: "length (skip_ws s) \<le> length s"
  by (simp add: skip_ws_def length_dropWhile_le)

lemma skip_ws_Cons_length: "skip_ws s = c # cs \<Longrightarrow> length cs < length s"
  using skip_ws_length [of s] by simp

lemma parse_chars_unicode:
  "parse_chars (92 # 117 # es) = Syntax_Error
   \<or> (\<exists>t u. length t < length es
         \<and> parse_chars (92 # 117 # es)
             = and_then (parse_chars t) (\<lambda>(str, r'). Parsed (u # str, r')))"
proof (cases es)
  case Nil
  then show ?thesis by simp
next
  case a: (Cons h1 e1)
  show ?thesis
  proof (cases e1)
    case Nil
    then show ?thesis using a by simp
  next
    case b: (Cons h2 e2)
    show ?thesis
    proof (cases e2)
      case Nil
      then show ?thesis using a b by simp
    next
      case c: (Cons h3 e3)
      show ?thesis
      proof (cases e3)
        case Nil
        then show ?thesis using a b c by simp
      next
        case d: (Cons h4 r)
        show ?thesis
        proof (cases "hex4 h1 h2 h3 h4")
          case None
          then show ?thesis using a b c d by simp
        next
          case (Some u)
          have "length r < length es"
            using a b c d by simp
          moreover have "parse_chars (92 # 117 # es)
              = and_then (parse_chars r) (\<lambda>(str, r'). Parsed (u # str, r'))"
            using a b c d Some by simp
          ultimately show ?thesis by blast
        qed
      qed
    qed
  qed
qed

lemma parse_chars_step:
  "parse_chars (c # cs) = Syntax_Error \<or> parse_chars (c # cs) = Parsed ([], cs)
   \<or> (\<exists>t u. length t \<le> length cs
         \<and> parse_chars (c # cs)
             = and_then (parse_chars t) (\<lambda>(str, r'). Parsed (u # str, r')))"
proof (cases "c = 34")
  case True
  then show ?thesis by simp
next
  case nq: False
  show ?thesis
  proof (cases "c = 92")
    case bs: True
    show ?thesis
    proof (cases cs)
      case Nil
      then show ?thesis using bs by simp
    next
      case (Cons e es)
      show ?thesis
      proof (cases "e = 117")
        case True
        have le: "length t \<le> length (117 # es)" if "length t < length es" for t :: jsstring
          using that by simp
        show ?thesis
          using parse_chars_unicode [of es] le unfolding bs Cons True
          by blast
      next
        case nu: False
        show ?thesis
        proof (cases "unescape e")
          case None
          then show ?thesis using bs Cons nu by simp
        next
          case (Some u)
          have "parse_chars (c # cs)
              = and_then (parse_chars es) (\<lambda>(str, r'). Parsed (u # str, r'))"
            using bs Cons nu Some by simp
          moreover have "length es \<le> length cs" using Cons by simp
          ultimately show ?thesis by blast
        qed
      qed
    qed
  next
    case nb: False
    show ?thesis
    proof (cases "c < 32")
      case True
      then show ?thesis using nq nb by simp
    next
      case False
      then have "parse_chars (c # cs)
          = and_then (parse_chars cs) (\<lambda>(str, r'). Parsed (c # str, r'))"
        using nq nb by simp
      then show ?thesis by blast
    qed
  qed
qed

lemma parse_chars_fuel: "parse_chars s \<noteq> Out_Of_Fuel"
proof (induction "length s" arbitrary: s rule: less_induct)
  case less
  show ?case
  proof (cases s)
    case Nil
    then show ?thesis by simp
  next
    case (Cons c cs)
    have IH: "parse_chars t \<noteq> Out_Of_Fuel" if "length t \<le> length cs" for t
      using less [of t] Cons that by simp
    from parse_chars_step [of c cs] show ?thesis
      unfolding Cons
    proof (elim disjE exE conjE)
      fix t u
      assume t: "length t \<le> length cs"
        and eq: "parse_chars (c # cs) = and_then (parse_chars t) (\<lambda>(str, r'). Parsed (u # str, r'))"
      show "parse_chars (c # cs) \<noteq> Out_Of_Fuel"
        using IH [OF t] unfolding eq by (cases "parse_chars t") auto
    qed simp_all
  qed
qed

lemma parse_chars_shorter: "parse_chars s = Parsed (str, r) \<Longrightarrow> length r < length s"
proof (induction "length s" arbitrary: s str rule: less_induct)
  case less
  show ?case
  proof (cases s)
    case Nil
    then show ?thesis using less.prems by simp
  next
    case (Cons c cs)
    have IH: "length r < length t" if "parse_chars t = Parsed (str', r)" "length t \<le> length cs"
      for t str'
      using less.hyps [of t str'] Cons that by simp
    from parse_chars_step [of c cs] show ?thesis
    proof (elim disjE exE conjE)
      assume "parse_chars (c # cs) = Syntax_Error"
      then show ?thesis using less.prems Cons by simp
    next
      assume "parse_chars (c # cs) = Parsed ([], cs)"
      then show ?thesis using less.prems Cons by simp
    next
      fix t u
      assume t: "length t \<le> length cs"
        and eq: "parse_chars (c # cs) = and_then (parse_chars t) (\<lambda>(str, r'). Parsed (u # str, r'))"
      from less.prems Cons eq obtain str' where "parse_chars t = Parsed (str', r)"
        by (auto simp: and_then_Parsed_iff simp del: parse_chars.simps)
      from IH [OF this t] show ?thesis using t Cons by simp
    qed
  qed
qed


lemma parse_value_Suc_shape:
  assumes "skip_ws s = c # cs"
  shows "parse_value (Suc n) s = Syntax_Error \<or> parse_value (Suc n) s = Unmodelled
    \<or> (\<exists>v k. parse_value (Suc n) s = Parsed (v, drop k cs))
    \<or> parse_value (Suc n) s = and_then (parse_chars cs) (\<lambda>(str, r). Parsed (JStr str, r))
    \<or> (\<exists>v d r. skip_ws cs = d # r \<and> parse_value (Suc n) s = Parsed (v, r))
    \<or> parse_value (Suc n) s = parse_elements n [] cs
    \<or> parse_value (Suc n) s = parse_members n [] cs
    \<or> parse_value (Suc n) s = parse_number (c # cs)"
  using assms by (cases "skip_ws cs") auto

lemma fuel_enough:
  "(\<forall>s. length s + length s < n \<longrightarrow>
      parse_value n s \<noteq> Out_Of_Fuel
      \<and> (\<forall>v r. parse_value n s = Parsed (v, r) \<longrightarrow> length r < length s))
   \<and> (\<forall>acc s. Suc (length s + length s) < n \<longrightarrow>
      parse_elements n acc s \<noteq> Out_Of_Fuel
      \<and> (\<forall>v r. parse_elements n acc s = Parsed (v, r) \<longrightarrow> length r < length s))
   \<and> (\<forall>macc s. Suc (length s + length s) < n \<longrightarrow>
      parse_members n macc s \<noteq> Out_Of_Fuel
      \<and> (\<forall>v r. parse_members n macc s = Parsed (v, r) \<longrightarrow> length r < length s))"
proof (induction n)
  case 0
  show ?case by simp
next
  case (Suc n)
  then have IH1: "\<And>s. length s + length s < n \<Longrightarrow> parse_value n s \<noteq> Out_Of_Fuel"
    and IH1': "\<And>s v r. length s + length s < n \<Longrightarrow> parse_value n s = Parsed (v, r)
                \<Longrightarrow> length r < length s"
    and IH2: "\<And>acc s. Suc (length s + length s) < n \<Longrightarrow> parse_elements n acc s \<noteq> Out_Of_Fuel"
    and IH2': "\<And>acc s v r. Suc (length s + length s) < n \<Longrightarrow>
                parse_elements n acc s = Parsed (v, r) \<Longrightarrow> length r < length s"
    and IH3: "\<And>macc s. Suc (length s + length s) < n \<Longrightarrow> parse_members n macc s \<noteq> Out_Of_Fuel"
    and IH3': "\<And>macc s v r. Suc (length s + length s) < n \<Longrightarrow>
                parse_members n macc s = Parsed (v, r) \<Longrightarrow> length r < length s"
    by blast+
  have P1: "parse_value (Suc n) s \<noteq> Out_Of_Fuel
      \<and> (\<forall>v r. parse_value (Suc n) s = Parsed (v, r) \<longrightarrow> length r < length s)"
    if bound: "length s + length s < Suc n" for s
  proof (cases "skip_ws s")
    case Nil
    then show ?thesis by simp
  next
    case (Cons c cs)
    have cs: "length cs < length s"
      using Cons by (rule skip_ws_Cons_length)
    then have b2: "Suc (length cs + length cs) < n"
      using bound by simp
    from parse_value_Suc_shape [OF Cons, of n] show ?thesis
    proof (elim disjE exE conjE)
      fix v k
      assume "parse_value (Suc n) s = Parsed (v, drop k cs)"
      then show ?thesis using cs by (simp del: parse_value.simps)
    next
      assume eq: "parse_value (Suc n) s
                    = and_then (parse_chars cs) (\<lambda>(str, r). Parsed (JStr str, r))"
      show ?thesis
        unfolding eq using parse_chars_fuel [of cs] cs
        by (cases "parse_chars cs") (auto dest: parse_chars_shorter)
    next
      fix v d r
      assume "skip_ws cs = d # r" "parse_value (Suc n) s = Parsed (v, r)"
      then show ?thesis
        using cs skip_ws_Cons_length [of cs d r] by (simp del: parse_value.simps)
    next
      assume eq: "parse_value (Suc n) s = parse_elements n [] cs"
      have "length r < length s" if "parse_elements n [] cs = Parsed (v, r)" for v r
        using IH2' [OF b2 that] cs by simp
      then show ?thesis
        unfolding eq using IH2 [OF b2, of "[]"] by blast
    next
      assume eq: "parse_value (Suc n) s = parse_members n [] cs"
      have "length r < length s" if "parse_members n [] cs = Parsed (v, r)" for v r
        using IH3' [OF b2 that] cs by simp
      then show ?thesis
        unfolding eq using IH3 [OF b2, of "[]"] by blast
    next
      assume eq: "parse_value (Suc n) s = parse_number (c # cs)"
      have "length r < length s" if "parse_number (c # cs) = Parsed (v, r)" for v r
        using parse_number_result [OF that] cs by simp
      then show ?thesis
        unfolding eq using parse_number_fuel [of "c # cs"] by blast
    qed (simp_all del: parse_value.simps)
  qed
  have P2: "parse_elements (Suc n) acc s \<noteq> Out_Of_Fuel
      \<and> (\<forall>v r. parse_elements (Suc n) acc s = Parsed (v, r) \<longrightarrow> length r < length s)"
    if bound: "Suc (length s + length s) < Suc n" for acc s
  proof -
    have b1: "length s + length s < n" using bound by simp
    show ?thesis
    proof (cases "parse_value n s")
      case (Parsed x)
      obtain a r where x: "x = (a, r)" by (cases x)
      have r: "length r < length s"
        using IH1' [OF b1] Parsed x by simp
      show ?thesis
      proof (cases "skip_ws r")
        case Nil
        then show ?thesis using Parsed x by simp
      next
        case (Cons d r')
        have r': "length r' < length r"
          using Cons by (rule skip_ws_Cons_length)
        then have b2: "Suc (length r' + length r') < n"
          using r b1 by simp
        have eq: "parse_elements (Suc n) acc s =
                    (if d = 44 then parse_elements n (acc @ [a]) r'
                     else if d = 93 then Parsed (JArr (acc @ [a]), r') else Syntax_Error)"
          using Parsed x Cons by simp
        have sh: "length r'' < length s"
          if "parse_elements n (acc @ [a]) r' = Parsed (v, r'')" for v r''
          using IH2' [OF b2 that] r r' by simp
        show ?thesis
          unfolding eq
          using IH2 [OF b2, of "acc @ [a]"] sh r r'
          by (auto split: if_splits)
      qed
    next
      case Out_Of_Fuel
      then show ?thesis using IH1 [OF b1] by simp
    qed simp_all
  qed
  have P3: "parse_members (Suc n) macc s \<noteq> Out_Of_Fuel
      \<and> (\<forall>v r. parse_members (Suc n) macc s = Parsed (v, r) \<longrightarrow> length r < length s)"
    if bound: "Suc (length s + length s) < Suc n" for macc s
  proof (cases "skip_ws s")
    case Nil
    then show ?thesis by simp
  next
    case (Cons c cs)
    have cs: "length cs < length s"
      using Cons by (rule skip_ws_Cons_length)
    show ?thesis
    proof (cases "c = 34")
      case False
      then show ?thesis using Cons by simp
    next
      case q: True
      show ?thesis
      proof (cases "parse_chars cs")
        case (Parsed x)
        obtain k r where x: "x = (k, r)" by (cases x)
        have r: "length r < length cs"
          using Parsed x by (simp add: parse_chars_shorter)
        show ?thesis
        proof (cases "skip_ws r")
          case Nil
          then show ?thesis using Cons q Parsed x by simp
        next
          case colon: (Cons d r1)
          have r1: "length r1 < length r"
            using colon by (rule skip_ws_Cons_length)
          then have b1: "length r1 + length r1 < n"
            using r cs bound by simp
          show ?thesis
          proof (cases "d \<noteq> 58 \<or> digits_only k")
            case True
            then show ?thesis using Cons q Parsed x colon by auto
          next
            case ok: False
            show ?thesis
            proof (cases "parse_value n r1")
              case inner: (Parsed y)
              obtain a r2 where y: "y = (a, r2)" by (cases y)
              have r2: "length r2 < length r1"
                using IH1' [OF b1] inner y by simp
              show ?thesis
              proof (cases "skip_ws r2")
                case Nil
                then show ?thesis using Cons q Parsed x colon ok inner y by simp
              next
                case sep: (Cons e r3)
                have r3: "length r3 < length r2"
                  using sep by (rule skip_ws_Cons_length)
                then have b3: "Suc (length r3 + length r3) < n"
                  using r2 b1 by simp
                have eq: "parse_members (Suc n) macc s =
                    (if e = 44 then parse_members n (obj_set k a macc) r3
                     else if e = 125 then Parsed (JObj (obj_set k a macc), r3)
                     else Syntax_Error)"
                  using Cons q Parsed x colon ok inner y sep by simp
                have sh: "length r'' < length s"
                  if "parse_members n (obj_set k a macc) r3 = Parsed (v, r'')" for v r''
                  using IH3' [OF b3 that] r3 r2 r1 r cs by simp
                show ?thesis
                  unfolding eq
                  using IH3 [OF b3, of "obj_set k a macc"] sh r3 r2 r1 r cs
                  by (auto split: if_splits)
              qed
            next
              case Out_Of_Fuel
              then show ?thesis using IH1 [OF b1] by simp
            qed (use Cons q Parsed x colon ok in simp_all)
          qed
        qed
      next
        case Out_Of_Fuel
        then show ?thesis using parse_chars_fuel [of cs] by simp
      qed (use Cons q in simp_all)
    qed
  qed
  from P1 P2 P3 show ?case by blast
qed

lemma JSON_parse_fuel: "JSON_parse s \<noteq> Out_Of_Fuel"
proof -
  have "parse_value (Suc (length s + length s)) s \<noteq> Out_Of_Fuel"
    using fuel_enough [of "Suc (length s + length s)"] by blast
  then show ?thesis
    by (cases "parse_value (Suc (length s + length s)) s")
      (auto simp: JSON_parse_def simp del: parse_value.simps split: if_splits)
qed

section \<open>More calls do not change the parser's answer\<close>

lemma fuel_mono:
  "(\<forall>s. parse_value n s \<noteq> Out_Of_Fuel \<longrightarrow> parse_value (Suc n) s = parse_value n s)
   \<and> (\<forall>acc s. parse_elements n acc s \<noteq> Out_Of_Fuel
        \<longrightarrow> parse_elements (Suc n) acc s = parse_elements n acc s)
   \<and> (\<forall>macc s. parse_members n macc s \<noteq> Out_Of_Fuel
        \<longrightarrow> parse_members (Suc n) macc s = parse_members n macc s)"
proof (induction n)
  case 0
  show ?case by simp
next
  case (Suc n)
  then have IH1: "\<And>s. parse_value n s \<noteq> Out_Of_Fuel \<Longrightarrow> parse_value (Suc n) s = parse_value n s"
    and IH2: "\<And>acc s. parse_elements n acc s \<noteq> Out_Of_Fuel
                \<Longrightarrow> parse_elements (Suc n) acc s = parse_elements n acc s"
    and IH3: "\<And>macc s. parse_members n macc s \<noteq> Out_Of_Fuel
                \<Longrightarrow> parse_members (Suc n) macc s = parse_members n macc s"
    by blast+
  have P1: "parse_value (Suc (Suc n)) s = parse_value (Suc n) s"
    if ne: "parse_value (Suc n) s \<noteq> Out_Of_Fuel" for s
  proof (cases "skip_ws s")
    case Nil
    then show ?thesis by simp
  next
    case (Cons c cs)
    show ?thesis
    proof (cases "skip_ws cs")
      case Nil
      then show ?thesis using Cons by simp
    next
      case inner: (Cons d r)
      consider "c = 91" "d \<noteq> 93" | "c = 123" "d \<noteq> 125"
        | "\<not> (c = 91 \<and> d \<noteq> 93)" "\<not> (c = 123 \<and> d \<noteq> 125)"
        by blast
      then show ?thesis
      proof cases
        case 1
        then have "parse_value (Suc n) s = parse_elements n [] cs"
          using Cons inner by simp
        then have "parse_elements (Suc n) [] cs = parse_elements n [] cs"
          using ne IH2 by simp
        then show ?thesis
          using 1 Cons inner by (simp del: parse_elements.simps)
      next
        case 2
        then have "parse_value (Suc n) s = parse_members n [] cs"
          using Cons inner by simp
        then have "parse_members (Suc n) [] cs = parse_members n [] cs"
          using ne IH3 by simp
        then show ?thesis
          using 2 Cons inner by (simp del: parse_members.simps)
      next
        case 3
        then show ?thesis
          using Cons inner by (auto simp del: parse_elements.simps parse_members.simps)
      qed
    qed
  qed
  have P2: "parse_elements (Suc (Suc n)) acc s = parse_elements (Suc n) acc s"
    if ne: "parse_elements (Suc n) acc s \<noteq> Out_Of_Fuel" for acc s
  proof -
    have "parse_value n s \<noteq> Out_Of_Fuel"
      using ne by (auto simp: and_then_Out_Of_Fuel_iff)
    then have e1: "parse_value (Suc n) s = parse_value n s"
      by (rule IH1)
    show ?thesis
    proof (cases "parse_value n s")
      case (Parsed x)
      obtain v r where x: "x = (v, r)" by (cases x)
      show ?thesis
      proof (cases "skip_ws r")
        case Nil
        then show ?thesis
          using e1 Parsed x by (simp del: parse_value.simps)
      next
        case (Cons d r')
        show ?thesis
        proof (cases "d = 44")
          case True
          then have "parse_elements (Suc n) acc s = parse_elements n (acc @ [v]) r'"
            using Parsed x Cons by simp
          then have "parse_elements (Suc n) (acc @ [v]) r' = parse_elements n (acc @ [v]) r'"
            using ne IH2 by simp
          then show ?thesis
            using e1 Parsed x Cons True
            by (simp del: parse_value.simps)
        next
          case False
          then show ?thesis
            using e1 Parsed x Cons by (simp del: parse_value.simps)
        qed
      qed
    qed (use e1 in \<open>simp_all del: parse_value.simps\<close>)
  qed
  have P3: "parse_members (Suc (Suc n)) macc s = parse_members (Suc n) macc s"
    if ne: "parse_members (Suc n) macc s \<noteq> Out_Of_Fuel" for macc s
  proof (cases "skip_ws s")
    case Nil
    then show ?thesis by simp
  next
    case (Cons c cs)
    show ?thesis
    proof (cases "c = 34")
      case False
      then show ?thesis using Cons by simp
    next
      case q: True
      show ?thesis
      proof (cases "parse_chars cs")
        case (Parsed x)
        obtain k r where x: "x = (k, r)" by (cases x)
        show ?thesis
        proof (cases "skip_ws r")
          case Nil
          then show ?thesis using Cons q Parsed x by simp
        next
          case colon: (Cons d r1)
          show ?thesis
          proof (cases "d \<noteq> 58 \<or> digits_only k")
            case True
            then show ?thesis using Cons q Parsed x colon by auto
          next
            case ok: False
            have shape: "parse_members (Suc m) macc s =
                and_then (parse_value m r1) (\<lambda>(v, r2).
                  case skip_ws r2 of
                    [] \<Rightarrow> Syntax_Error
                  | e # r3 \<Rightarrow>
                      if e = 44 then parse_members m (obj_set k v macc) r3
                      else if e = 125 then Parsed (JObj (obj_set k v macc), r3)
                      else Syntax_Error)" for m
              using Cons q Parsed x colon ok by simp
            have "parse_value n r1 \<noteq> Out_Of_Fuel"
              using ne unfolding shape by (auto simp: and_then_Out_Of_Fuel_iff)
            then have e1: "parse_value (Suc n) r1 = parse_value n r1"
              by (rule IH1)
            show ?thesis
            proof (cases "parse_value n r1")
              case inner: (Parsed y)
              obtain a r2 where y: "y = (a, r2)" by (cases y)
              show ?thesis
              proof (cases "skip_ws r2")
                case Nil
                then show ?thesis
                  unfolding shape using e1 inner y by (simp del: parse_value.simps)
              next
                case sep: (Cons e r3)
                show ?thesis
                proof (cases "e = 44")
                  case True
                  then have "parse_members (Suc n) macc s = parse_members n (obj_set k a macc) r3"
                    unfolding shape using inner y sep by simp
                  then have "parse_members (Suc n) (obj_set k a macc) r3
                      = parse_members n (obj_set k a macc) r3"
                    using ne IH3 by simp
                  then show ?thesis
                    unfolding shape using e1 inner y sep True
                    by (simp del: parse_value.simps parse_members.simps)
                next
                  case False
                  then show ?thesis
                    unfolding shape using e1 inner y sep by (simp del: parse_value.simps)
                qed
              qed
            qed (unfold shape, use e1 in \<open>simp_all del: parse_value.simps\<close>)
          qed
        qed
      qed (use Cons q in simp_all)
    qed
  qed
  from P1 P2 P3 show ?case by blast
qed

lemma parse_value_more_fuel:
  "parse_value n s \<noteq> Out_Of_Fuel \<Longrightarrow> parse_value (n + m) s = parse_value n s"
proof (induction m)
  case 0
  show ?case by simp
next
  case (Suc m)
  then have "parse_value (n + m) s \<noteq> Out_Of_Fuel" by simp
  then have "parse_value (Suc (n + m)) s = parse_value (n + m) s"
    using fuel_mono [of "n + m"] by blast
  then show ?case using Suc by simp
qed

section \<open>A text cut short does not parse\<close>

text \<open>
  No proper part of a written array is itself JSON, whatever the length at which the
  text is cut: the parser meets the end of the text, or U+FFFD, where the value goes on.
\<close>

lemma cut_tail_skip: "cut_tail t \<Longrightarrow> skip_ws t = t"
  by (auto simp: cut_tail_def skip_ws_def is_ws_def)

lemma cut_tail_value: "cut_tail t \<Longrightarrow> parse_value (Suc n) t = Syntax_Error"
  by (auto simp: cut_tail_def skip_ws_def is_ws_def is_digit_def)

lemma cut_tail_chars: "cut_tail t \<Longrightarrow> parse_chars t = Syntax_Error"
  by (auto simp: cut_tail_def)

lemma cut_tail_ends: "cut_tail t \<Longrightarrow> ends_number t"
  by (auto simp: cut_tail_def ends_number_def is_digit_def)

lemma cut_tail_elements: "cut_tail t \<Longrightarrow> parse_elements (Suc (Suc n)) acc t = Syntax_Error"
  using cut_tail_value [of t n] by (simp del: parse_value.simps)

lemma cut_tail_members: "cut_tail t \<Longrightarrow> parse_members (Suc n) macc t = Syntax_Error"
  by (auto simp: cut_tail_def skip_ws_def is_ws_def)

lemma skip_ws_all: "list_all is_ws ws \<Longrightarrow> skip_ws (ws @ t) = skip_ws t"
  by (induction ws) (simp_all add: skip_ws_Cons)

lemma prefix_indent: "prefix p (10 # spaces j) \<Longrightarrow> list_all is_ws p"
proof -
  assume "prefix p (10 # spaces j)"
  then have "set p \<subseteq> set (10 # spaces j)" by (rule set_mono_prefix)
  then show ?thesis
    by (auto simp: list_all_iff is_ws_def spaces_def)
qed

lemma cut_escape:
  assumes step: "\<And>X. parse_chars X = Syntax_Error \<Longrightarrow> parse_chars (E @ X) = Syntax_Error"
    and short: "\<And>e. strict_prefix e E \<Longrightarrow> parse_chars (e @ t) = Syntax_Error"
    and rest: "\<And>q. prefix q Q \<Longrightarrow> parse_chars (q @ t) = Syntax_Error"
    and p: "prefix p (E @ Q)"
  shows "parse_chars (p @ t) = Syntax_Error"
proof (cases "strict_prefix p E")
  case True
  then show ?thesis by (rule short)
next
  case False
  have "\<exists>us. p = E @ us \<and> prefix us Q"
  proof (cases "prefix p E")
    case True
    with False have "p = E @ [] \<and> prefix [] Q"
      by (simp add: strict_prefix_def)
    then show ?thesis by blast
  next
    case False
    then show ?thesis using p by (simp add: prefix_append)
  qed
  then obtain us where us: "p = E @ us" "prefix us Q" by blast
  show ?thesis
    using step [OF rest [OF us(2)]] us(1) by simp
qed

lemma unicode_escape_step:
  "c < 65536 \<Longrightarrow> parse_chars X = Syntax_Error \<Longrightarrow> parse_chars (unicode_escape c @ X) = Syntax_Error"
  by (simp add: parse_unicode_escape)

lemma parse_chars_escape_short:
  "length es < 4 \<Longrightarrow> parse_chars (92 # 117 # es) = Syntax_Error"
  by (auto split: list.splits)

lemma parse_chars_escape_bad:
  "hexval d = None \<Longrightarrow> parse_chars (92 # 117 # a # b # c # d # r) = Syntax_Error"
  by (simp add: hex4_def split: option.splits)

lemma unicode_escape_short:
  assumes e: "strict_prefix e (unicode_escape c)" and t: "cut_tail t"
  shows "parse_chars (e @ t) = Syntax_Error"
proof -
  obtain h1 h2 h3 h4 where u: "unicode_escape c = [92, 117, h1, h2, h3, h4]"
    by (simp add: unicode_escape_def)
  have bad: "hexval 65533 = None"
    by (simp add: hexval_def)
  from e u consider "e = []" | "e = [92]" | es where "e = 92 # 117 # es" "length es < 3"
    | "e = [92, 117, h1, h2, h3]"
    by (auto simp: strict_prefix_def prefix_Cons)
  then show ?thesis
  proof cases
    case 1
    then show ?thesis using t by (simp add: cut_tail_chars)
  next
    case 2
    then show ?thesis using t by (auto simp: cut_tail_def unescape_def)
  next
    case 3
    then have "length (es @ t) < 4" using t by (auto simp: cut_tail_def)
    from parse_chars_escape_short [OF this] show ?thesis using 3 by simp
  next
    case 4
    show ?thesis
    proof (cases "t = []")
      case True
      then show ?thesis using 4 parse_chars_escape_short [of "[h1, h2, h3]"] by simp
    next
      case False
      then have "t = [65533]" using t by (simp add: cut_tail_def)
      then show ?thesis using 4 parse_chars_escape_bad [OF bad, of h1 h2 h3 "[]"] by simp
    qed
  qed
qed

lemma quote_chars_step_intro:
  assumes "quote_chars (c # cs) = E @ quote_chars cs'" and "length cs' \<le> length cs"
    and "\<And>X. parse_chars X = Syntax_Error \<Longrightarrow> parse_chars (E @ X) = Syntax_Error"
    and "\<And>e t. strict_prefix e E \<Longrightarrow> cut_tail t \<Longrightarrow> parse_chars (e @ t) = Syntax_Error"
  shows "\<exists>E cs'. quote_chars (c # cs) = E @ quote_chars cs' \<and> length cs' \<le> length cs
     \<and> (\<forall>X. parse_chars X = Syntax_Error \<longrightarrow> parse_chars (E @ X) = Syntax_Error)
     \<and> (\<forall>e t. strict_prefix e E \<longrightarrow> cut_tail t \<longrightarrow> parse_chars (e @ t) = Syntax_Error)"
  apply (rule exI [of _ E])
  apply (rule exI [of _ cs'])
  using assms apply (intro conjI allI impI)
     apply assumption+
  done

lemma short_escape_step:
  "unescape x \<noteq> None \<Longrightarrow> x \<noteq> 117 \<Longrightarrow> parse_chars X = Syntax_Error
     \<Longrightarrow> parse_chars ([92, x] @ X) = Syntax_Error"
  by auto

lemma short_escape_short:
  "strict_prefix e [92, x] \<Longrightarrow> cut_tail t \<Longrightarrow> parse_chars (e @ t) = Syntax_Error"
  by (auto simp: strict_prefix_def prefix_Cons cut_tail_def unescape_def)

lemma plain_char_step:
  "c \<noteq> 34 \<Longrightarrow> c \<noteq> 92 \<Longrightarrow> \<not> c < 32 \<Longrightarrow> parse_chars X = Syntax_Error
     \<Longrightarrow> parse_chars ([c] @ X) = Syntax_Error"
  by simp

lemma plain_char_short:
  "strict_prefix e [c] \<Longrightarrow> cut_tail t \<Longrightarrow> parse_chars (e @ t) = Syntax_Error"
  by (auto simp: strict_prefix_def prefix_Cons cut_tail_def)

lemma pair_step:
  "c \<noteq> 34 \<Longrightarrow> c \<noteq> 92 \<Longrightarrow> \<not> c < 32 \<Longrightarrow> d \<noteq> 34 \<Longrightarrow> d \<noteq> 92 \<Longrightarrow> \<not> d < 32
     \<Longrightarrow> parse_chars X = Syntax_Error \<Longrightarrow> parse_chars ([c, d] @ X) = Syntax_Error"
  by simp

lemma pair_short:
  "c \<noteq> 34 \<Longrightarrow> c \<noteq> 92 \<Longrightarrow> \<not> c < 32 \<Longrightarrow> strict_prefix e [c, d] \<Longrightarrow> cut_tail t
     \<Longrightarrow> parse_chars (e @ t) = Syntax_Error"
  by (auto simp: strict_prefix_def prefix_Cons cut_tail_def)

lemma quote_chars_step:
  "\<exists>E cs'. quote_chars (c # cs) = E @ quote_chars cs' \<and> length cs' \<le> length cs
     \<and> (\<forall>X. parse_chars X = Syntax_Error \<longrightarrow> parse_chars (E @ X) = Syntax_Error)
     \<and> (\<forall>e t. strict_prefix e E \<longrightarrow> cut_tail t \<longrightarrow> parse_chars (e @ t) = Syntax_Error)"
proof -
  have uni: ?thesis if q: "quote_chars (c # cs) = unicode_escape c @ quote_chars cs'"
    and l: "length cs' \<le> length cs" and c: "c < 65536" for cs'
    using q l unicode_escape_step [OF c] unicode_escape_short
    by (rule quote_chars_step_intro)
  have two: ?thesis if q: "quote_chars (c # cs) = [92, x] @ quote_chars cs"
    and x: "unescape x \<noteq> None" "x \<noteq> 117" for x
    using q le_refl short_escape_step [OF x] short_escape_short
    by (rule quote_chars_step_intro)
  have lt: "c < 32 \<or> is_high_surrogate c \<or> is_low_surrogate c \<Longrightarrow> c < 65536"
    by (auto simp: is_high_surrogate_def is_low_surrogate_def)
  show ?thesis
  proof (cases "c = 8 \<or> c = 9 \<or> c = 10 \<or> c = 12 \<or> c = 13 \<or> c = 34 \<or> c = 92")
    case True
    then consider "c = 8" | "c = 9" | "c = 10" | "c = 12" | "c = 13" | "c = 34" | "c = 92"
      by blast
    then show ?thesis
    proof cases
      case 1
      have "quote_chars (c # cs) = [92, 98] @ quote_chars cs" using 1 by simp
      then show ?thesis by (rule two) (simp_all add: unescape_def)
    next
      case 2
      have "quote_chars (c # cs) = [92, 116] @ quote_chars cs" using 2 by simp
      then show ?thesis by (rule two) (simp_all add: unescape_def)
    next
      case 3
      have "quote_chars (c # cs) = [92, 110] @ quote_chars cs" using 3 by simp
      then show ?thesis by (rule two) (simp_all add: unescape_def)
    next
      case 4
      have "quote_chars (c # cs) = [92, 102] @ quote_chars cs" using 4 by simp
      then show ?thesis by (rule two) (simp_all add: unescape_def)
    next
      case 5
      have "quote_chars (c # cs) = [92, 114] @ quote_chars cs" using 5 by simp
      then show ?thesis by (rule two) (simp_all add: unescape_def)
    next
      case 6
      have "quote_chars (c # cs) = [92, 34] @ quote_chars cs" using 6 by simp
      then show ?thesis by (rule two) (simp_all add: unescape_def)
    next
      case 7
      have "quote_chars (c # cs) = [92, 92] @ quote_chars cs" using 7 by simp
      then show ?thesis by (rule two) (simp_all add: unescape_def)
    qed
  next
    case special: False
    show ?thesis
    proof (cases "c < 32")
      case True
      have q: "quote_chars (c # cs) = unicode_escape c @ quote_chars cs"
        using special True by simp
      show ?thesis by (rule uni [OF q]) (use True in auto)
    next
      case ge: False
      show ?thesis
      proof (cases "is_high_surrogate c")
        case high: True
        show ?thesis
        proof (cases cs)
          case Nil
          have q: "quote_chars (c # cs) = unicode_escape c @ quote_chars []"
            using special ge high Nil by simp
          show ?thesis by (rule uni [OF q]) (use high lt in auto)
        next
          case inner: (Cons d ds)
          show ?thesis
          proof (cases "is_low_surrogate d")
            case True
            then have d: "d \<noteq> 34" "d \<noteq> 92" "\<not> d < 32"
              by (auto simp: is_low_surrogate_def)
            have c: "c \<noteq> 34" "c \<noteq> 92" "\<not> c < 32"
              using special ge by auto
            have q: "quote_chars (c # cs) = [c, d] @ quote_chars ds"
              using special ge high True inner by simp
            have l: "length ds \<le> length cs" using inner by simp
            show ?thesis
              using q l pair_step [OF c d] pair_short [OF c]
              by (rule quote_chars_step_intro)
          next
            case False
            have q: "quote_chars (c # cs) = unicode_escape c @ quote_chars cs"
              using special ge high inner False by simp
            show ?thesis by (rule uni [OF q]) (use high lt in auto)
          qed
        qed
      next
        case nothigh: False
        show ?thesis
        proof (cases "is_low_surrogate c")
          case True
          have q: "quote_chars (c # cs) = unicode_escape c @ quote_chars cs"
            using special ge nothigh True by simp
          show ?thesis by (rule uni [OF q]) (use True lt in auto)
        next
          case False
          have c: "c \<noteq> 34" "c \<noteq> 92" "\<not> c < 32"
            using special ge by auto
          have q: "quote_chars (c # cs) = [c] @ quote_chars cs"
            using special ge nothigh False by simp
          show ?thesis
            using q le_refl plain_char_step [OF c] plain_char_short
            by (rule quote_chars_step_intro)
        qed
      qed
    qed
  qed
qed

lemma parse_chars_cut:
  "prefix p (quote_chars s) \<Longrightarrow> cut_tail t \<Longrightarrow> parse_chars (p @ t) = Syntax_Error"
proof (induction "length s" arbitrary: s p rule: less_induct)
  case less
  show ?case
  proof (cases s)
    case Nil
    then show ?thesis using less.prems by (simp add: cut_tail_chars)
  next
    case (Cons c cs)
    obtain E cs' where q: "quote_chars (c # cs) = E @ quote_chars cs'"
      and len: "length cs' \<le> length cs"
      and step: "\<And>X. parse_chars X = Syntax_Error \<Longrightarrow> parse_chars (E @ X) = Syntax_Error"
      and short: "\<And>e. strict_prefix e E \<Longrightarrow> parse_chars (e @ t) = Syntax_Error"
      using quote_chars_step [of c cs] less.prems(2) by blast
    have rest: "parse_chars (x @ t) = Syntax_Error" if "prefix x (quote_chars cs')" for x
      using less.hyps [of cs' x] len Cons that less.prems(2) by simp
    show ?thesis
      using step short rest
    proof (rule cut_escape)
      show "prefix p (E @ quote_chars cs')"
        using less.prems(1) Cons q by simp
    qed
  qed
qed

lemma foldl_digits_ge: "a \<le> foldl (\<lambda>a c. 10 * a + (c - 48)) a (zs :: nat list)"
proof (induction zs arbitrary: a)
  case Nil
  show ?case by simp
next
  case (Cons z zs)
  have "a \<le> 10 * a + (z - 48)" by simp
  also have "\<dots> \<le> foldl (\<lambda>a c. 10 * a + (c - 48)) (10 * a + (z - 48)) zs"
    by (rule Cons.IH)
  finally show ?case by simp
qed

lemma value_prefix_le:
  "prefix xs ys \<Longrightarrow>
   foldl (\<lambda>a c. 10 * a + (c - 48)) 0 xs \<le> foldl (\<lambda>a c. 10 * a + (c - 48)) 0 (ys :: nat list)"
  using foldl_digits_ge by (auto simp: prefix_def)

lemma parse_integer_cut:
  assumes p: "prefix ds (nat_digits m)" and ne: "ds \<noteq> []"
    and m: "int m \<le> max_safe_integer" and t: "cut_tail t"
  shows "\<exists>u. parse_integer neg (ds @ t) = Parsed (JNum u, t)"
proof -
  have nf: "\<not> starts_fraction t"
    using t by (auto simp: cut_tail_def starts_fraction_def)
  show ?thesis
  proof (cases "m = 0")
    case True
    then have "ds = [48]"
      using p ne by (auto simp: nat_digits_zero prefix_Cons)
    then show ?thesis
      using nf by (simp add: parse_integer_def is_digit_def max_safe_integer_def)
  next
    case False
    then obtain d rest where d: "nat_digits m = d # rest" "is_digit d" "d \<noteq> 48"
      using hd_nat_digits [of m] by auto
    then obtain ds' where ds: "ds = d # ds'"
      using p ne by (auto simp: prefix_Cons)
    have "set ds \<subseteq> set (nat_digits m)"
      using p by (rule set_mono_prefix)
    then have dig: "list_all is_digit ds"
      using is_digit_nat_digits [of m] by (auto simp: list_all_iff)
    have "parse_digits 0 (ds @ t) = (foldl (\<lambda>a c. 10 * a + (c - 48)) 0 ds, t)"
      using dig cut_tail_ends [OF t] by (simp add: parse_digits_append parse_digits_stop)
    moreover have "foldl (\<lambda>a c. 10 * a + (c - 48)) 0 ds \<le> m"
      using value_prefix_le [OF p] by (simp add: value_nat_digits)
    ultimately show ?thesis
      using d ds nf m by (simp add: parse_integer_def del: parse_digits.simps)
  qed
qed

lemma parse_value_number_cut:
  assumes p: "strict_prefix p (number_toString z)" and z: "\<bar>z\<bar> \<le> max_safe_integer"
    and t: "cut_tail t"
  shows "parse_value (Suc n) (p @ t) = Syntax_Error
    \<or> (\<exists>u. parse_value (Suc n) (p @ t) = Parsed (u, t))"
proof (cases p)
  case Nil
  then show ?thesis using t by (simp add: cut_tail_value del: parse_value.simps)
next
  case (Cons c p')
  show ?thesis
  proof (cases "z < 0")
    case True
    then have c: "c = 45" and p': "prefix p' (nat_digits (nat (- z)))"
      using p Cons by (auto simp: number_toString_def strict_prefix_def)
    have eq: "parse_value (Suc n) (p @ t) = parse_integer True (p' @ t)"
      using Cons c by (simp add: skip_ws_Cons is_ws_def parse_number_def)
    show ?thesis
    proof (cases "p' = []")
      case True
      then show ?thesis
        unfolding eq using t by (auto simp: parse_integer_def cut_tail_def is_digit_def)
    next
      case False
      have "int (nat (- z)) \<le> max_safe_integer" using z True by simp
      from parse_integer_cut [OF p' False this t, of True] show ?thesis
        unfolding eq by blast
    qed
  next
    case False
    then have pre: "prefix p (nat_digits (nat z))"
      using p by (simp add: number_toString_def strict_prefix_def)
    then have "set p \<subseteq> set (nat_digits (nat z))" by (rule set_mono_prefix)
    then have "is_digit c"
      using is_digit_nat_digits [of "nat z"] Cons by (auto simp: list_all_iff)
    then have eq: "parse_value (Suc n) (p @ t) = parse_integer False (p @ t)"
      using Cons by (auto simp: skip_ws_Cons is_ws_def parse_number_def is_digit_def)
    have "int (nat z) \<le> max_safe_integer" using z False by simp
    from parse_integer_cut [OF pre _ this t, of False] show ?thesis
      unfolding eq using Cons by auto
  qed
qed


lemma strict_prefix_snoc: "strict_prefix p (xs @ [x]) \<longleftrightarrow> prefix p xs"
  by (auto simp: strict_prefix_def prefix_snoc dest: prefix_length_le)

lemma prefix_append_cases:
  assumes "prefix p (A @ B)"
  obtains "strict_prefix p A" | q where "p = A @ q" "prefix q B"
proof (cases "strict_prefix p A")
  case True
  then show thesis by (rule that(1))
next
  case False
  have "\<exists>q. p = A @ q \<and> prefix q B"
  proof (cases "prefix p A")
    case True
    with False have "p = A @ [] \<and> prefix [] B"
      by (simp add: strict_prefix_def)
    then show ?thesis by blast
  next
    case False
    then show ?thesis using assms by (simp add: prefix_append)
  qed
  then show thesis using that(2) by blast
qed

lemma prefix_indent_skip:
  assumes "prefix q (10 # spaces i @ Y)"
  obtains q' where "prefix q' Y" "skip_ws (q @ t) = skip_ws (q' @ t)"
proof -
  from assms have "prefix q ((10 # spaces i) @ Y)" by simp
  then show thesis
  proof (cases rule: prefix_append_cases)
    case 1
    then have "prefix q (10 # spaces i)"
      by (simp add: strict_prefix_def)
    then have "list_all is_ws q"
      by (rule prefix_indent)
    then have "skip_ws (q @ t) = skip_ws ([] @ t)"
      by (simp add: skip_ws_all)
    then show thesis using that [of "[]"] by simp
  next
    case (2 q')
    then have "skip_ws (q @ t) = skip_ws (q' @ t)"
      by (simp add: skip_ws_indent)
    then show thesis using that [of q'] 2 by simp
  qed
qed

lemma cut_head:
  assumes "prefix q Y" and "starts_value Y" and "cut_tail t"
  shows "case skip_ws (q @ t) of [] \<Rightarrow> True | d # r \<Rightarrow> d \<noteq> 93 \<and> d \<noteq> 125"
proof (cases q)
  case Nil
  then show ?thesis using assms(3) by (auto simp: cut_tail_def skip_ws_def is_ws_def)
next
  case (Cons c q')
  then obtain Y' where "Y = c # Y'"
    using assms(1) by (auto simp: prefix_def)
  then have "\<not> is_ws c" "c \<noteq> 93" "c \<noteq> 125"
    using assms(2) by (auto simp: starts_value_def is_ws_def is_digit_def)
  then show ?thesis using Cons by (simp add: skip_ws_Cons)
qed

lemma array_open_cut:
  assumes "parse_elements n [] s = Syntax_Error"
    and "case skip_ws s of [] \<Rightarrow> True | d # r \<Rightarrow> d \<noteq> 93 \<and> d \<noteq> 125"
  shows "parse_value (Suc n) (91 # s) = Syntax_Error"
  using assms
  by (cases "skip_ws s") (simp_all add: skip_ws_Cons is_ws_def del: parse_elements.simps)

lemma object_open_cut:
  assumes "parse_members n [] s = Syntax_Error"
    and "case skip_ws s of [] \<Rightarrow> True | d # r \<Rightarrow> d \<noteq> 93 \<and> d \<noteq> 125"
  shows "parse_value (Suc n) (123 # s) = Syntax_Error"
  using assms
  by (cases "skip_ws s") (simp_all add: skip_ws_Cons is_ws_def del: parse_members.simps)

lemma ends_number_cut:
  assumes "prefix q (c # R)" and "c = 10 \<or> c = 44" and "cut_tail t"
  shows "ends_number (q @ t)"
  using assms
  by (cases q) (auto simp: prefix_Cons ends_number_def cut_tail_def is_digit_def)

lemma parse_elements_skip_eq:
  "skip_ws a = skip_ws b \<Longrightarrow> parse_elements n acc a = parse_elements n acc b"
  using parse_elements_skip [of n acc a] parse_elements_skip [of n acc b] by simp

lemma parse_members_skip_eq:
  "skip_ws a = skip_ws b \<Longrightarrow> parse_members n macc a = parse_members n macc b"
  using parse_members_skip [of n macc a] parse_members_skip [of n macc b] by simp

lemma elements_cut_value:
  assumes "parse_value n s = Syntax_Error \<or> A \<and> (\<exists>u. parse_value n s = Parsed (u, t))"
    and "cut_tail t"
  shows "parse_elements (Suc n) acc s = Syntax_Error"
  using assms by (auto simp: cut_tail_def skip_ws_def is_ws_def)

lemma elements_after_last:
  assumes "parse_value n s = Parsed (v, q @ t)" and "list_all is_ws q" and "cut_tail t"
  shows "parse_elements (Suc n) acc s = Syntax_Error"
  using assms by (auto simp: skip_ws_all cut_tail_def skip_ws_Cons skip_ws_Nil is_ws_def)

lemma parse_members_key:
  "\<not> digits_only k \<Longrightarrow>
   parse_members (Suc n) macc (quote_json k @ 58 # 32 # s) =
     and_then (parse_value n s) (\<lambda>(v, r2).
       case skip_ws r2 of
         [] \<Rightarrow> Syntax_Error
       | e # r3 \<Rightarrow>
           if e = 44 then parse_members n (obj_set k v macc) r3
           else if e = 125 then Parsed (JObj (obj_set k v macc), r3)
           else Syntax_Error)"
  by (simp add: quote_json_def skip_ws_Cons is_ws_def parse_quote_chars parse_value_space)

lemma members_cut_value:
  assumes "\<not> digits_only k"
    and "parse_value n s = Syntax_Error \<or> A \<and> (\<exists>u. parse_value n s = Parsed (u, t))"
    and "cut_tail t"
  shows "parse_members (Suc n) macc (quote_json k @ 58 # 32 # s) = Syntax_Error"
  unfolding parse_members_key [OF assms(1)]
  using assms(2,3) by (auto simp: cut_tail_def skip_ws_def is_ws_def)

lemma members_after_last:
  assumes "\<not> digits_only k" and "parse_value n s = Parsed (v, q @ t)"
    and "list_all is_ws q" and "cut_tail t"
  shows "parse_members (Suc n) macc (quote_json k @ 58 # 32 # s) = Syntax_Error"
  unfolding parse_members_key [OF assms(1)]
  using assms(2-) by (auto simp: skip_ws_all cut_tail_def skip_ws_Cons skip_ws_Nil is_ws_def)

lemma members_cut_key:
  assumes "prefix p (quote_json k @ 58 # [32])" and "p \<noteq> quote_json k @ 58 # [32]"
    and "cut_tail t" and "\<not> digits_only k"
  shows "parse_members (Suc (Suc n)) macc (p @ t) = Syntax_Error"
proof -
  from assms(1) have "prefix p (quote_json k @ [58, 32])" by simp
  then show ?thesis
  proof (cases rule: prefix_append_cases)
    case 1
    then have "prefix p (34 # quote_chars k)"
      by (simp add: quote_json_def strict_prefix_snoc [of p "34 # quote_chars k", simplified])
    then consider "p = []" | p' where "p = 34 # p'" "prefix p' (quote_chars k)"
      by (auto simp: prefix_Cons)
    then show ?thesis
    proof cases
      case 1
      then show ?thesis using assms(3) by (simp add: cut_tail_members del: parse_members.simps)
    next
      case 2
      then show ?thesis
        using parse_chars_cut [OF 2(2) assms(3)] by (simp add: skip_ws_Cons is_ws_def)
    qed
  next
    case (2 q)
    then consider "q = []" | "q = [58]"
      using assms(2) by (auto simp: prefix_Cons)
    then show ?thesis
    proof cases
      case 1
      then show ?thesis
        using 2 assms(3)
        by (auto simp: quote_json_def skip_ws_Cons is_ws_def parse_quote_chars cut_tail_def
              skip_ws_Nil)
    next
      case 2
      have "parse_value (Suc n) t = Syntax_Error"
        using assms(3) by (rule cut_tail_value)
      then show ?thesis
        using \<open>p = quote_json k @ q\<close> 2 assms(4)
        by (auto simp: quote_json_def skip_ws_Cons is_ws_def parse_quote_chars
              simp del: parse_value.simps)
    qed
  qed
qed

lemma starts_value_elements: "vs \<noteq> [] \<Longrightarrow> starts_value (ser_elements i vs @ r)"
  using starts_value_ser by (cases vs) (simp_all add: ser_elements_Cons)

lemma starts_value_members: "ms \<noteq> [] \<Longrightarrow> starts_value (ser_members i ms @ r)"
  by (cases ms) (auto simp: ser_members_Cons quote_json_def starts_value_def)


lemma cut_rec:
  "wf v \<Longrightarrow> cost v + 2 \<le> n \<Longrightarrow> strict_prefix p (ser i v) \<Longrightarrow> cut_tail t \<Longrightarrow>
     parse_value n (p @ t) = Syntax_Error
     \<or> (\<exists>z. v = JNum z) \<and> (\<exists>u. parse_value n (p @ t) = Parsed (u, t))"
  "vs \<noteq> [] \<Longrightarrow> wf_elements vs \<Longrightarrow> cost_elements vs + 2 \<le> n \<Longrightarrow>
     prefix p (ser_elements i vs @ 10 # spaces j) \<Longrightarrow> cut_tail t \<Longrightarrow>
     parse_elements n acc (p @ t) = Syntax_Error"
  "ms \<noteq> [] \<Longrightarrow> wf_members ms \<Longrightarrow> cost_members ms + 2 \<le> n \<Longrightarrow>
     prefix p (ser_members i ms @ 10 # spaces j) \<Longrightarrow> cut_tail t \<Longrightarrow>
     parse_members n macc (p @ t) = Syntax_Error"
proof (induction i v and i vs and i ms
    arbitrary: n p and n acc p j and n macc p j
    rule: ser_ser_elements_ser_members.induct)
  case (1 i)
  then obtain n' where "n = Suc n'" by (cases n) auto
  then show ?case
    using "1.prems"
    by (auto simp: strict_prefix_def prefix_Cons cut_tail_def skip_ws_Cons skip_ws_Nil
          is_ws_def is_digit_def)
next
  case (2 i b)
  then obtain n' where "n = Suc n'" by (cases n) auto
  then show ?case
    using "2.prems"
    by (cases b)
      (auto simp: strict_prefix_def prefix_Cons cut_tail_def skip_ws_Cons skip_ws_Nil
         is_ws_def is_digit_def)
next
  case (3 i z)
  then obtain n' where "n = Suc n'" by (cases n) auto
  then show ?case
    using "3.prems" parse_value_number_cut [of p z t n'] by simp
next
  case (4 i negative)
  then show ?case by simp
next
  case (5 i s)
  then obtain n' where n: "n = Suc n'" by (cases n) auto
  have "prefix p (34 # quote_chars s)"
    using "5.prems"(3) strict_prefix_snoc [of p "34 # quote_chars s" 34]
    by (simp add: quote_json_def)
  then consider "p = []" | p' where "p = 34 # p'" "prefix p' (quote_chars s)"
    by (auto simp: prefix_Cons)
  then show ?case
  proof cases
    case 1
    then show ?thesis
      using n "5.prems"(4) by (simp add: cut_tail_value del: parse_value.simps)
  next
    case 2
    then show ?thesis
      using n parse_chars_cut [OF 2(2) "5.prems"(4)] by (simp add: skip_ws_Cons is_ws_def)
  qed
next
  case (6 i)
  then obtain n' where n: "n = Suc (Suc (Suc n'))"
    by (cases n; cases "n - 1"; cases "n - 2") auto
  from "6.prems"(3) consider "p = []" | "p = [91]"
    by (auto simp: strict_prefix_def prefix_Cons)
  then show ?case
  proof cases
    case 1
    then show ?thesis
      using n "6.prems"(4) by (simp add: cut_tail_value del: parse_value.simps)
  next
    case 2
    have "parse_elements (Suc (Suc n')) [] t = Syntax_Error"
      using "6.prems"(4) by (rule cut_tail_elements)
    moreover have "case skip_ws t of [] \<Rightarrow> True | d # r \<Rightarrow> d \<noteq> 93 \<and> d \<noteq> 125"
      using "6.prems"(4) by (auto simp: cut_tail_def skip_ws_def is_ws_def)
    ultimately show ?thesis
      using n 2 array_open_cut [of "Suc (Suc n')" t] by simp
  qed
next
  case (7 i v vs)
  from "7.prems" obtain n' where n: "n = Suc n'" and c: "cost_elements (v # vs) + 2 \<le> n'"
    by (cases n) auto
  let ?Y = "ser_elements (i + 2) (v # vs) @ 10 # spaces i"
  have "ser i (JArr (v # vs)) = (91 # 10 # spaces (i + 2) @ ?Y) @ [93]"
    by simp
  then have "prefix p (91 # 10 # spaces (i + 2) @ ?Y)"
    using "7.prems"(3) strict_prefix_snoc [of p "91 # 10 # spaces (i + 2) @ ?Y" 93] by simp
  then consider "p = []" | p' where "p = 91 # p'" "prefix p' (10 # spaces (i + 2) @ ?Y)"
    by (auto simp: prefix_Cons)
  then show ?case
  proof cases
    case 1
    then show ?thesis
      using n "7.prems"(4) by (simp add: cut_tail_value del: parse_value.simps)
  next
    case 2
    from 2(2) obtain q where q: "prefix q ?Y" "skip_ws (p' @ t) = skip_ws (q @ t)"
      by (rule prefix_indent_skip)
    have "parse_elements n' [] (q @ t) = Syntax_Error"
      using "7.prems" c q(1) by (intro "7.IH") simp_all
    then have e: "parse_elements n' [] (p' @ t) = Syntax_Error"
      using parse_elements_skip_eq [OF q(2)] by simp
    have "starts_value ?Y"
      by (rule starts_value_elements) simp
    from cut_head [OF q(1) this "7.prems"(4)]
    have "case skip_ws (p' @ t) of [] \<Rightarrow> True | d # r \<Rightarrow> d \<noteq> 93 \<and> d \<noteq> 125"
      using q(2) by simp
    from array_open_cut [OF e this] show ?thesis
      using n 2(1) by simp
  qed
next
  case (8 i)
  then obtain n' where n: "n = Suc (Suc n')"
    by (cases n; cases "n - 1") auto
  from "8.prems"(3) consider "p = []" | "p = [123]"
    by (auto simp: strict_prefix_def prefix_Cons)
  then show ?case
  proof cases
    case 1
    then show ?thesis
      using n "8.prems"(4) by (simp add: cut_tail_value del: parse_value.simps)
  next
    case 2
    have "parse_members (Suc n') [] t = Syntax_Error"
      using "8.prems"(4) by (rule cut_tail_members)
    moreover have "case skip_ws t of [] \<Rightarrow> True | d # r \<Rightarrow> d \<noteq> 93 \<and> d \<noteq> 125"
      using "8.prems"(4) by (auto simp: cut_tail_def skip_ws_def is_ws_def)
    ultimately show ?thesis
      using n 2 object_open_cut [of "Suc n'" t] by simp
  qed
next
  case (9 i m ms)
  from "9.prems" obtain n' where n: "n = Suc n'" and c: "cost_members (m # ms) + 2 \<le> n'"
    by (cases n) auto
  let ?Y = "ser_members (i + 2) (m # ms) @ 10 # spaces i"
  have "ser i (JObj (m # ms)) = (123 # 10 # spaces (i + 2) @ ?Y) @ [125]"
    by simp
  then have "prefix p (123 # 10 # spaces (i + 2) @ ?Y)"
    using "9.prems"(3) strict_prefix_snoc [of p "123 # 10 # spaces (i + 2) @ ?Y" 125] by simp
  then consider "p = []" | p' where "p = 123 # p'" "prefix p' (10 # spaces (i + 2) @ ?Y)"
    by (auto simp: prefix_Cons)
  then show ?case
  proof cases
    case 1
    then show ?thesis
      using n "9.prems"(4) by (simp add: cut_tail_value del: parse_value.simps)
  next
    case 2
    from 2(2) obtain q where q: "prefix q ?Y" "skip_ws (p' @ t) = skip_ws (q @ t)"
      by (rule prefix_indent_skip)
    have "parse_members n' [] (q @ t) = Syntax_Error"
      using "9.prems" c q(1) by (intro "9.IH") simp_all
    then have e: "parse_members n' [] (p' @ t) = Syntax_Error"
      using parse_members_skip_eq [OF q(2)] by simp
    have "starts_value ?Y"
      by (rule starts_value_members) simp
    from cut_head [OF q(1) this "9.prems"(4)]
    have "case skip_ws (p' @ t) of [] \<Rightarrow> True | d # r \<Rightarrow> d \<noteq> 93 \<and> d \<noteq> 125"
      using q(2) by simp
    from object_open_cut [OF e this] show ?thesis
      using n 2(1) by simp
  qed
next
  case (10 i)
  then show ?case by simp
next
  case (11 i v)
  from "11.prems" obtain n' where n: "n = Suc n'" and c: "cost v + 2 \<le> n'"
    by (cases n) auto
  have wfv: "wf v" using "11.prems" by simp
  from "11.prems"(4) have "prefix p (ser i v @ 10 # spaces j)" by simp
  then show ?case
  proof (cases rule: prefix_append_cases)
    case 1
    have "parse_value n' (p @ t) = Syntax_Error
      \<or> (\<exists>z. v = JNum z) \<and> (\<exists>u. parse_value n' (p @ t) = Parsed (u, t))"
      using wfv c 1 "11.prems"(5) by (rule "11.IH")
    from elements_cut_value [OF this "11.prems"(5)] show ?thesis
      using n by simp
  next
    case (2 q)
    have "ends_number (q @ t)"
      using 2(2) _ "11.prems"(5) by (rule ends_number_cut) simp
    then have "parse_value n' (ser i v @ q @ t) = Parsed (v, q @ t)"
      using wfv c by (intro roundtrip_rec(1)) simp_all
    moreover have "list_all is_ws q"
      using 2(2) by (rule prefix_indent)
    ultimately show ?thesis
      using n 2(1) elements_after_last [of n' "ser i v @ q @ t" v q t acc] "11.prems"(5)
      by simp
  qed
next
  case (12 i v w vs)
  from "12.prems" obtain n' where n: "n = Suc n'"
    and c: "cost v + 2 \<le> n'" "cost_elements (w # vs) + 2 \<le> n'"
    by (cases n) auto
  have wfv: "wf v" using "12.prems" by simp
  let ?Y = "ser_elements i (w # vs) @ 10 # spaces j"
  from "12.prems"(4) have "prefix p (ser i v @ 44 # 10 # spaces i @ ?Y)" by simp
  then show ?case
  proof (cases rule: prefix_append_cases)
    case 1
    have "parse_value n' (p @ t) = Syntax_Error
      \<or> (\<exists>z. v = JNum z) \<and> (\<exists>u. parse_value n' (p @ t) = Parsed (u, t))"
      using wfv c(1) 1 "12.prems"(5) by (rule "12.IH"(1))
    from elements_cut_value [OF this "12.prems"(5)] show ?thesis
      using n by simp
  next
    case (2 q)
    have "ends_number (q @ t)"
      using 2(2) _ "12.prems"(5) by (rule ends_number_cut) simp
    then have v: "parse_value n' (ser i v @ q @ t) = Parsed (v, q @ t)"
      using wfv c by (intro roundtrip_rec(1)) simp_all
    from 2(2) consider "q = []" | q1 where "q = 44 # q1" "prefix q1 (10 # spaces i @ ?Y)"
      by (auto simp: prefix_Cons)
    then show ?thesis
    proof cases
      case 1
      then show ?thesis
        using n 2(1) v elements_after_last [of n' "ser i v @ t" v "[]" t acc] "12.prems"(5)
        by simp
    next
      case q: 2
      from q(2) obtain q' where q': "prefix q' ?Y" "skip_ws (q1 @ t) = skip_ws (q' @ t)"
        by (rule prefix_indent_skip)
      have "parse_elements n' (acc @ [v]) (q' @ t) = Syntax_Error"
        using "12.prems" c q'(1) by (intro "12.IH"(2)) simp_all
      then have "parse_elements n' (acc @ [v]) (q1 @ t) = Syntax_Error"
        using parse_elements_skip_eq [OF q'(2)] by simp
      moreover have "parse_value n' (ser i v @ 44 # q1 @ t) = Parsed (v, 44 # q1 @ t)"
        using v q(1) by simp
      ultimately show ?thesis
        using n 2(1) q(1) parse_elements_step [of n' "ser i v @ 44 # q1 @ t" v 44 "q1 @ t" acc]
        by (simp add: is_ws_def del: parse_elements.simps)
    qed
  qed
next
  case (13 i)
  then show ?case by simp
next
  case (14 i k v)
  from "14.prems" obtain n' where n: "n = Suc n'" and c: "cost v + 2 \<le> n'"
    by (cases n) auto
  then obtain n'' where n': "n' = Suc n''" by (cases n') auto
  have wfv: "wf v" and k: "\<not> digits_only k" using "14.prems" by simp_all
  from "14.prems"(4) have "prefix p ((quote_json k @ 58 # [32]) @ ser i v @ 10 # spaces j)"
    by simp
  then show ?case
  proof (cases rule: prefix_append_cases)
    case 1
    then show ?thesis
      using n n' members_cut_key [of p k t n'' macc] "14.prems"(5) k
      by (simp add: strict_prefix_def)
  next
    case (2 q)
    from 2(2) show ?thesis
    proof (cases rule: prefix_append_cases)
      case 1
      have "parse_value n' (q @ t) = Syntax_Error
        \<or> (\<exists>z. v = JNum z) \<and> (\<exists>u. parse_value n' (q @ t) = Parsed (u, t))"
        using wfv c 1 "14.prems"(5) by (rule "14.IH")
      from members_cut_value [OF k this "14.prems"(5)] show ?thesis
        using n 2(1) by simp
    next
      case inner: (2 q3)
      have "ends_number (q3 @ t)"
        using inner(2) _ "14.prems"(5) by (rule ends_number_cut) simp
      then have "parse_value n' (ser i v @ q3 @ t) = Parsed (v, q3 @ t)"
        using wfv c by (intro roundtrip_rec(1)) simp_all
      moreover have "list_all is_ws q3"
        using inner(2) by (rule prefix_indent)
      ultimately show ?thesis
        using n 2(1) inner(1) "14.prems"(5)
          members_after_last [OF k, of n' "ser i v @ q3 @ t" v q3 t macc]
        by simp
    qed
  qed
next
  case (15 i k v m ms)
  from "15.prems" obtain n' where n: "n = Suc n'"
    and c: "cost v + 2 \<le> n'" "cost_members (m # ms) + 2 \<le> n'"
    by (cases n) auto
  then obtain n'' where n': "n' = Suc n''" by (cases n') auto
  have wfv: "wf v" and k: "\<not> digits_only k" using "15.prems" by simp_all
  let ?Y = "ser_members i (m # ms) @ 10 # spaces j"
  from "15.prems"(4)
  have "prefix p ((quote_json k @ 58 # [32]) @ ser i v @ 44 # 10 # spaces i @ ?Y)"
    by simp
  then show ?case
  proof (cases rule: prefix_append_cases)
    case 1
    then show ?thesis
      using n n' members_cut_key [of p k t n'' macc] "15.prems"(5) k
      by (simp add: strict_prefix_def)
  next
    case (2 q)
    from 2(2) show ?thesis
    proof (cases rule: prefix_append_cases)
      case 1
      have "parse_value n' (q @ t) = Syntax_Error
        \<or> (\<exists>z. v = JNum z) \<and> (\<exists>u. parse_value n' (q @ t) = Parsed (u, t))"
        using wfv c(1) 1 "15.prems"(5) by (rule "15.IH"(1))
      from members_cut_value [OF k this "15.prems"(5)] show ?thesis
        using n 2(1) by simp
    next
      case inner: (2 q3)
      have "ends_number (q3 @ t)"
        using inner(2) _ "15.prems"(5) by (rule ends_number_cut) simp
      then have v: "parse_value n' (ser i v @ q3 @ t) = Parsed (v, q3 @ t)"
        using wfv c by (intro roundtrip_rec(1)) simp_all
      from inner(2) consider "q3 = []"
        | q4 where "q3 = 44 # q4" "prefix q4 (10 # spaces i @ ?Y)"
        by (auto simp: prefix_Cons)
      then show ?thesis
      proof cases
        case 1
        then show ?thesis
          using n 2(1) inner(1) v "15.prems"(5)
            members_after_last [OF k, of n' "ser i v @ t" v "[]" t macc]
          by simp
      next
        case q: 2
        from q(2) obtain q' where q': "prefix q' ?Y" "skip_ws (q4 @ t) = skip_ws (q' @ t)"
          by (rule prefix_indent_skip)
        have "parse_members n' (obj_set k v macc) (q' @ t) = Syntax_Error"
          using "15.prems" c q'(1) by (intro "15.IH"(2)) simp_all
        then have "parse_members n' (obj_set k v macc) (q4 @ t) = Syntax_Error"
          using parse_members_skip_eq [OF q'(2)] by simp
        moreover have "parse_value n' (ser i v @ 44 # q4 @ t) = Parsed (v, 44 # q4 @ t)"
          using v q(1) by simp
        ultimately show ?thesis
          using n 2(1) inner(1) q(1)
            parse_members_step [of n' "ser i v @ 44 # q4 @ t" v "44 # q4 @ t" k macc] k
          by (simp add: skip_ws_Cons is_ws_def del: parse_members.simps)
      qed
    qed
  qed
qed


lemma cut_short_unreadable:
  assumes cs: "wf (JArr cs)" and k: "k < length (JSON_stringify (JArr cs))"
  shows "JSON_parse (cut_short k inside (JSON_stringify (JArr cs))) = Syntax_Error"
proof -
  let ?p = "take k (ser 0 (JArr cs))"
  let ?t = "if inside then [65533] else []"
  let ?N = "Suc (length (?p @ ?t) + length (?p @ ?t))"
  have p: "strict_prefix ?p (ser 0 (JArr cs))"
    using k by (auto simp: strict_prefix_def take_is_prefix JSON_stringify_def)
  have t: "cut_tail ?t"
    by (simp add: cut_tail_def)
  have "parse_value (?N + (cost (JArr cs) + 2)) (?p @ ?t) = Syntax_Error"
    using cut_rec(1) [OF cs _ p t, of "?N + (cost (JArr cs) + 2)"] by simp
  moreover have "parse_value ?N (?p @ ?t) \<noteq> Out_Of_Fuel"
    using fuel_enough [of ?N] by blast
  ultimately have "parse_value ?N (?p @ ?t) = Syntax_Error"
    using parse_value_more_fuel [of ?N "?p @ ?t" "cost (JArr cs) + 2"] by simp
  then have "JSON_parse (?p @ ?t) = Syntax_Error"
    unfolding JSON_parse_def by (simp del: parse_value.simps)
  then show ?thesis
    using k by (simp add: cut_short_def JSON_stringify_def)
qed

section \<open>Properties of the store and the handlers\<close>

lemma readContacts_cases:
  "readContacts w =
     (case read_fault w of
        Some code \<Rightarrow> if code = ''ENOENT'' then Inr (JArr []) else Inl (IOError code)
      | None \<Rightarrow>
          (case document w of
             None \<Rightarrow> Inr (JArr [])
           | Some data \<Rightarrow>
               (case JSON_parse data of
                  Parsed v \<Rightarrow> Inr v
                | Syntax_Error \<Rightarrow> Inr (JArr [])
                | Unmodelled \<Rightarrow> Inl Not_Modelled
                | Out_Of_Fuel \<Rightarrow> Inl Not_Modelled)))"
  by (simp add: readContacts_def fs_readFile_def JSON_parse_throwing_def
        split: option.splits parsed.splits)

lemma readContacts_wf: "readContacts w = Inr v \<Longrightarrow> wf v"
  by (auto simp: readContacts_cases split: option.splits parsed.splits if_splits
        dest: JSON_parse_wf)

lemma readContacts_stored:
  "read_fault w = None \<Longrightarrow> wf (JArr cs) \<Longrightarrow> readContacts (stored cs w) = Inr (JArr cs)"
  by (simp add: readContacts_cases stored_def JSON_roundtrip)

lemma get_contacts_200:
  "get_contacts w = Response 200 (Json v) \<longleftrightarrow> readContacts w = Inr v"
  by (auto simp: get_contacts_def on_error_def split: sum.splits)

lemma digits_only_k_id: "\<not> digits_only k_id"
  by (simp add: digits_only_def k_id_def js_of_simps is_digit_def)

lemma wf_new_contact: "wf b \<Longrightarrow> wf (new_contact now b)"
  by (cases b)
    (simp_all add: new_contact_def wf_members_obj_set distinct_obj_set digits_only_k_id)

lemma wf_snoc: "wf (JArr cs) \<Longrightarrow> wf c \<Longrightarrow> wf (JArr (cs @ [c]))"
  by (simp add: wf_elements_append)

lemma fields_missing_truthy:
  "fields_missing b = Inr False \<longleftrightarrow>
     truthy_field b k_nombre \<and> truthy_field b k_apellido \<and> truthy_field b k_telefono"
  by (cases b) (auto simp: fields_missing_def truthy_field_def)

lemma post_attempt_success:
  assumes "fields_missing b = Inr False" and "readContacts w = Inr (JArr cs)"
    and "write_fault w = None"
  shows "post_contacts now b w = (created, stored (cs @ [new_contact now b]) w)"
  using assms
  by (simp add: post_contacts_def post_attempt_def in_world_def writeContacts_def
        fs_writeFile_def stored_def created_def new_contact_def)

lemma post_contacts_success:
  assumes b: "wf b" and ok: "fields_missing b = Inr False" and w: "serving w"
    and cs: "readContacts w = Inr (JArr cs)"
  shows "post_contacts now b w = (created, stored (cs @ [new_contact now b]) w)"
    and "readContacts (stored (cs @ [new_contact now b]) w) = Inr (JArr (cs @ [new_contact now b]))"
    and "serving (stored (cs @ [new_contact now b]) w)"
proof -
  show "post_contacts now b w = (created, stored (cs @ [new_contact now b]) w)"
    using ok cs w by (simp add: post_attempt_success serving_def)
  have "wf (JArr (cs @ [new_contact now b]))"
    using readContacts_wf [OF cs] wf_new_contact [OF b] by (rule wf_snoc)
  then show "readContacts (stored (cs @ [new_contact now b]) w)
               = Inr (JArr (cs @ [new_contact now b]))"
    using w by (simp add: readContacts_stored serving_def)
  show "serving (stored (cs @ [new_contact now b]) w)"
    using w by (simp add: serving_def stored_def)
qed

lemma map_of_obj_set: "map_of (obj_set k v ms) k' = (if k' = k then Some v else map_of ms k')"
  by (induction ms) auto

lemma get_member_new_contact:
  "truthy_field b k \<Longrightarrow>
   get_member (new_contact now b) k' =
     (if k' = k_id then Inr (Some (JStr (number_toString now))) else get_member b k')"
  by (cases b) (auto simp: new_contact_def truthy_field_def map_of_obj_set)

lemma nonempty_string_truthy: "nonempty_string_field b k \<Longrightarrow> truthy_field b k"
  by (auto simp: nonempty_string_field_def string_field_def truthy_field_def
        split: sum.splits option.splits jsval.splits)

lemma k_distinct:
  "k_nombre \<noteq> k_id" "k_apellido \<noteq> k_id" "k_telefono \<noteq> k_id"
  by (simp_all add: k_nombre_def k_apellido_def k_telefono_def k_id_def js_of_simps)

lemma valid_request_fields: "valid_request b \<Longrightarrow> fields_missing b = Inr False"
  by (simp add: valid_request_def fields_missing_truthy nonempty_string_truthy)

lemma string_field_new_contact:
  "truthy_field b k \<Longrightarrow> k' \<noteq> k_id \<Longrightarrow>
   string_field (new_contact now b) k' = string_field b k'"
  by (simp add: string_field_def get_member_new_contact)

lemma id_new_contact:
  "truthy_field b k \<Longrightarrow> string_field (new_contact now b) k_id = Some (number_toString now)"
  by (simp add: string_field_def get_member_new_contact)

lemma absent_or_empty_falsy:
  "absent_or_empty b k \<Longrightarrow> \<exists>x. get_member b k = Inr x \<and> \<not> truthy_opt x"
  by (auto simp: absent_or_empty_def)

lemma get_member_total: "get_member b k = Inr x \<Longrightarrow> \<exists>y. get_member b k' = Inr y"
  by (cases b) auto

lemma fields_missing_True:
  assumes "absent_or_empty b k_nombre \<or> absent_or_empty b k_apellido
           \<or> absent_or_empty b k_telefono"
  shows "fields_missing b = Inr True"
proof -
  from assms obtain k x where "get_member b k = Inr x"
    by (auto dest: absent_or_empty_falsy)
  then obtain n a t where g: "get_member b k_nombre = Inr n" "get_member b k_apellido = Inr a"
      "get_member b k_telefono = Inr t"
    by (meson get_member_total)
  have "\<not> truthy_opt n \<or> \<not> truthy_opt a \<or> \<not> truthy_opt t"
    using assms g by (auto dest: absent_or_empty_falsy)
  then show ?thesis
    using g by (auto simp: fields_missing_def)
qed

lemma post_contacts_world:
  "snd (post_contacts now b w) = w
   \<or> (\<exists>cs. fields_missing b = Inr False \<and> readContacts w = Inr (JArr cs)
        \<and> (write_fault w = None
              \<and> snd (post_contacts now b w) = stored (cs @ [new_contact now b]) w
            \<or> (\<exists>code k inside. write_fault w = Some (Cut_Short code k inside)
                 \<and> snd (post_contacts now b w)
                     = w\<lparr>document := Some (cut_short k inside
                          (JSON_stringify (JArr (cs @ [new_contact now b]))))\<rparr>)))"
proof (cases "fields_missing b")
  case (Inl e)
  then show ?thesis by (simp add: post_contacts_def post_attempt_def in_world_def)
next
  case (Inr missing)
  show ?thesis
  proof (cases missing)
    case True
    then show ?thesis using Inr by (simp add: post_contacts_def post_attempt_def in_world_def)
  next
    case False
    show ?thesis
    proof (cases "readContacts w")
      case (Inl e)
      then show ?thesis
        using Inr False by (simp add: post_contacts_def post_attempt_def in_world_def)
    next
      case read: (Inr v)
      show ?thesis
      proof (cases "\<exists>cs. v = JArr cs")
        case notarray: False
        then have "array_push v (set_member b k_id (JStr (number_toString now))) = Inl TypeError"
          by (cases v) auto
        then show ?thesis
          using Inr False read by (simp add: post_contacts_def post_attempt_def in_world_def)
      next
        case True
        then obtain cs where v: "v = JArr cs" by blast
        show ?thesis
        proof (cases "write_fault w")
          case None
          then show ?thesis
            using Inr False read v post_attempt_success [of b w cs now] by simp
        next
          case (Some failure)
          then show ?thesis
            using Inr False read v
            by (cases failure)
              (simp_all add: post_contacts_def post_attempt_def in_world_def writeContacts_def
                 fs_writeFile_def new_contact_def)
        qed
      qed
    qed
  qed
qed

lemma json_image_elements_Nil: "json_image_elements vs = [] \<longleftrightarrow> vs = []"
  by (cases vs) simp_all

lemma json_image_members_Nil: "json_image_members ms = [] \<longleftrightarrow> ms = []"
  by (cases ms) auto

lemma ser_json_image:
  "ser i (json_image v) = ser i v"
  "ser_elements i (json_image_elements vs) = ser_elements i vs"
  "ser_members i (json_image_members ms) = ser_members i ms"
proof (induction v and vs and ms arbitrary: i and i and i
    rule: json_image_json_image_elements_json_image_members.induct)
  case (6 vs)
  then show ?case
    by (cases vs) simp_all
next
  case (7 ms)
  then show ?case
    by (cases ms) auto
next
  case (9 v vs)
  then show ?case
    by (simp add: ser_elements_Cons json_image_elements_Nil)
next
  case (11 k v ms)
  then show ?case
    by (simp add: ser_members_Cons json_image_members_Nil)
qed simp_all

lemma json_image_wf:
  "wf v \<Longrightarrow> json_image v = v"
  "wf_elements vs \<Longrightarrow> json_image_elements vs = vs"
  "wf_members ms \<Longrightarrow> json_image_members ms = ms"
  by (induction v and vs and ms rule: json_image_json_image_elements_json_image_members.induct)
    simp_all

lemma wf_request_value: "wf v \<Longrightarrow> request_value v"
  by (simp add: request_value_def json_image_wf)

lemma json_image_elements_append:
  "json_image_elements (xs @ ys) = json_image_elements xs @ json_image_elements ys"
  by (induction xs) simp_all

lemma request_roundtrip:
  "request_value v \<Longrightarrow> JSON_parse (JSON_stringify v) = Parsed (json_image v)"
  using JSON_roundtrip [of "json_image v"]
  by (simp add: request_value_def JSON_stringify_def ser_json_image)

lemma json_image_obj_set:
  "json_image_members (obj_set k (JStr s) ms) = obj_set k (JStr s) (json_image_members ms)"
  by (induction ms) auto

lemma json_image_new_contact: "json_image (new_contact now b) = new_contact now (json_image b)"
  by (cases b) (simp_all add: new_contact_def json_image_obj_set)

lemma request_value_new_contact: "request_value b \<Longrightarrow> request_value (new_contact now b)"
  by (simp add: request_value_def json_image_new_contact wf_new_contact)

lemma map_of_json_image:
  "map_of (json_image_members ms) k = map_option json_image (map_of ms k)"
  by (induction ms) auto

lemma get_member_json_image:
  "get_member b k = Inr (Some v) \<Longrightarrow> get_member (json_image b) k = Inr (Some (json_image v))"
  by (cases b) (simp_all add: map_of_json_image)

lemma truthy_json_image: "truthy v \<Longrightarrow> truthy (json_image v) \<or> json_image v = JNull"
  by (cases v) simp_all

lemma kept_field_json_image:
  assumes "truthy_field b k"
  shows "kept_field (json_image b) k"
proof -
  from assms obtain v where v: "get_member b k = Inr (Some v)" "truthy v"
    by (cases "get_member b k"; cases "projr (get_member b k)")
      (auto simp: truthy_field_def)
  show ?thesis
    using get_member_json_image [OF v(1)] truthy_json_image [OF v(2)]
    by (auto simp: kept_field_def)
qed

lemma server_contact_ok_new:
  assumes "fields_missing b = Inr False"
  shows "server_contact_ok (json_image (new_contact now b))"
proof -
  have t: "truthy_field b k_nombre" "truthy_field b k_apellido" "truthy_field b k_telefono"
    using assms by (simp_all add: fields_missing_truthy)
  have "get_member (new_contact now b) k_id = Inr (Some (JStr (number_toString now)))"
    using t(1) by (simp add: get_member_new_contact)
  from get_member_json_image [OF this]
  have "get_member (json_image (new_contact now b)) k_id = Inr (Some (JStr (number_toString now)))"
    by simp
  then have "nonempty_string_field (json_image (new_contact now b)) k_id"
    by (simp add: nonempty_string_field_def string_field_def number_toString_nonempty)
  moreover have "truthy_field (new_contact now b) k = truthy_field b k" if "k \<noteq> k_id" for k
    using that t(1) by (simp add: truthy_field_def get_member_new_contact)
  ultimately show ?thesis
    using t by (simp add: server_contact_ok_def k_distinct kept_field_json_image)
qed

lemma persisted_written:
  assumes "wf (JArr cs)" and "request_value c"
  shows "persisted (w\<lparr>document := Some (JSON_stringify (JArr (cs @ [c])))\<rparr>)
           = Inr (JArr (cs @ [json_image c]))"
proof -
  have "request_value (JArr (cs @ [c]))"
    using assms by (simp add: request_value_def json_image_elements_append wf_elements_append
          json_image_wf)
  moreover have "json_image (JArr (cs @ [c])) = JArr (cs @ [json_image c])"
    using assms(1) by (simp add: json_image_elements_append json_image_wf)
  ultimately show ?thesis
    using request_roundtrip [of "JArr (cs @ [c])"]
    by (simp add: persisted_def readContacts_cases)
qed

lemma readContacts_persisted:
  "readContacts w = Inr (JArr cs) \<Longrightarrow> persisted w = Inr (JArr cs) \<or> cs = []"
  by (auto simp: persisted_def readContacts_cases split: option.splits if_splits)

lemma persisted_cut_short:
  assumes "wf (JArr cs)" and "request_value c"
  shows "persisted (w\<lparr>document := Some (cut_short k inside (JSON_stringify (JArr (cs @ [c]))))\<rparr>)
           = Inr (JArr (cs @ [json_image c]))
    \<or> persisted (w\<lparr>document := Some (cut_short k inside (JSON_stringify (JArr (cs @ [c]))))\<rparr>)
           = Inr (JArr [])"
proof (cases "k < length (JSON_stringify (JArr (cs @ [c])))")
  case True
  have i: "json_image (JArr (cs @ [c])) = JArr (cs @ [json_image c])"
    using assms(1) by (simp add: json_image_elements_append json_image_wf)
  have s: "JSON_stringify (JArr (cs @ [c])) = JSON_stringify (JArr (cs @ [json_image c]))"
    using ser_json_image(1) [of 0 "JArr (cs @ [c])"] unfolding i
    by (simp add: JSON_stringify_def)
  have "wf (JArr (cs @ [json_image c]))"
    using assms by (simp add: request_value_def wf_elements_append)
  from cut_short_unreadable [OF this, of k inside] True
  have "JSON_parse (cut_short k inside (JSON_stringify (JArr (cs @ [c])))) = Syntax_Error"
    unfolding s by simp
  then show ?thesis
    by (simp add: persisted_def readContacts_cases)
next
  case False
  then have "cut_short k inside (JSON_stringify (JArr (cs @ [c]))) = JSON_stringify (JArr (cs @ [c]))"
    by (simp add: cut_short_def)
  then show ?thesis
    using persisted_written [OF assms, of w] by simp
qed

lemma created_ids_equal_iff:
  assumes "fields_missing b1 = Inr False" and "fields_missing b2 = Inr False"
  shows "string_field (new_contact now1 b1) k_id = string_field (new_contact now2 b2) k_id
           \<longleftrightarrow> now1 = now2"
proof -
  have "truthy_field b1 k_nombre" "truthy_field b2 k_nombre"
    using assms by (simp_all add: fields_missing_truthy)
  then show ?thesis
    by (auto simp: id_new_contact dest: number_toString_inj)
qed

lemma two_creates:
  assumes b1: "wf b1" "fields_missing b1 = Inr False"
    and b2: "wf b2" "fields_missing b2 = Inr False"
    and w: "serving w" and cs: "readContacts w = Inr (JArr cs)"
  shows "fst (post_contacts now1 b1 w) = created
    \<and> fst (post_contacts now2 b2 (snd (post_contacts now1 b1 w))) = created
    \<and> readContacts (snd (post_contacts now2 b2 (snd (post_contacts now1 b1 w))))
           = Inr (JArr (cs @ [new_contact now1 b1, new_contact now2 b2]))"
proof -
  note p1 = post_contacts_success [OF b1 w cs, of now1]
  note p2 = post_contacts_success [OF b2 p1(3) p1(2), of now2]
  show ?thesis
    using p1(1) p2(1,2) by simp
qed

lemma filter_dropWhile:
  "(\<And>c. Q c \<Longrightarrow> \<not> P c) \<Longrightarrow> filter P (dropWhile Q s) = filter P s"
  by (induction s) auto

lemma strip_non_digits_trim: "strip_non_digits (js_trim s) = strip_non_digits s"
proof -
  have d: "filter is_digit (dropWhile is_space t) = filter is_digit t" for t
    by (rule filter_dropWhile) (auto simp: is_space_def is_digit_def)
  have "filter is_digit (rev (dropWhile is_space (rev (dropWhile is_space s))))
          = rev (filter is_digit (dropWhile is_space (rev (dropWhile is_space s))))"
    by (simp only: rev_filter)
  also have "\<dots> = rev (filter is_digit (rev (dropWhile is_space s)))"
    by (simp only: d)
  also have "\<dots> = filter is_digit (dropWhile is_space s)"
    by (simp add: rev_filter)
  also have "\<dots> = filter is_digit s"
    by (simp only: d)
  finally show ?thesis
    by (simp add: strip_non_digits_def js_trim_def)
qed

lemma validateContact_phone: "fst (validateContact d) \<Longrightarrow> isValidPhone (telefono d)"
  by (auto simp: validateContact_def Let_def split: if_splits)

lemma submit_juan:
  "handleFormSubmit False
     (Some \<lparr>form_nombre = Some (js_of ''Juan''), form_apellido = Some (js_of ''Perez''),
      form_telefono = Some (js_of ''809-123-4567'')\<rparr>)
   = Submitted \<lparr>nombre = js_of ''Juan'', apellido = js_of ''Perez'',
                 telefono = js_of ''8091234567''\<rparr>"
  by (simp add: handleFormSubmit_def or_empty_def js_trim_def is_space_def js_of_simps
        validateContact_def isValidName_def nameRegex_test_def name_char_def
        isValidPhone_def strip_non_digits_def is_digit_def sanitizeText_def Let_def)

section \<open>The claims\<close>

subsection \<open>Create appends one record\<close>

text \<open>
  C1. For a valid create request (\<open>nombre\<close>, \<open>apellido\<close> and \<open>telefono\<close> present and
  non-empty) on a store that serves reads and writes and lists the sequence \<open>cs\<close>,
  Create answers 201 and the next List returns \<open>cs\<close> with exactly one more element at
  its end, whose \<open>nombre\<close>, \<open>apellido\<close> and \<open>telefono\<close> are those of the request and
  whose \<open>id\<close> is a non-empty string.
\<close>

theorem create_then_list:
  assumes "wf b" and "valid_request b" and "serving w"
    and "get_contacts w = Response 200 (Json (JArr cs))"
  shows "fst (post_contacts now b w) = Response 201 (Text ''Contacto agregado exitosamente'')
    \<and> get_contacts (snd (post_contacts now b w))
          = Response 200 (Json (JArr (cs @ [new_contact now b])))
    \<and> length (cs @ [new_contact now b]) = length cs + 1
    \<and> string_field (new_contact now b) k_nombre = string_field b k_nombre
    \<and> string_field (new_contact now b) k_apellido = string_field b k_apellido
    \<and> string_field (new_contact now b) k_telefono = string_field b k_telefono
    \<and> nonempty_string_field (new_contact now b) k_id"
proof -
  have ok: "fields_missing b = Inr False"
    using assms(2) by (rule valid_request_fields)
  have cs: "readContacts w = Inr (JArr cs)"
    using assms(4) by (simp add: get_contacts_200)
  have t: "truthy_field b k_nombre"
    using assms(2) by (simp add: valid_request_def nonempty_string_truthy)
  note post = post_contacts_success [OF assms(1) ok assms(3) cs, of now]
  have "get_contacts (snd (post_contacts now b w))
          = Response 200 (Json (JArr (cs @ [new_contact now b])))"
    using post(1,2) by (simp add: get_contacts_200)
  moreover have "fst (post_contacts now b w) = Response 201 (Text ''Contacto agregado exitosamente'')"
    using post(1) by (simp add: created_def)
  moreover have "nonempty_string_field (new_contact now b) k_id"
    using id_new_contact [OF t, of now]
    by (simp add: nonempty_string_field_def number_toString_nonempty)
  ultimately show ?thesis
    using t by (simp add: string_field_new_contact k_distinct)
qed

theorem create_then_list_witness:
  "wf (request_body \<lparr>nombre = js_of ''Ana'', apellido = js_of ''Diaz'', telefono = js_of ''5551234''\<rparr>)
   \<and> valid_request
        (request_body \<lparr>nombre = js_of ''Ana'', apellido = js_of ''Diaz'', telefono = js_of ''5551234''\<rparr>)
   \<and> serving \<lparr>document = Some (js_of ''[{\"nombre\":\"Luis\"}]''), read_fault = None, write_fault = None\<rparr>
   \<and> get_contacts \<lparr>document = Some (js_of ''[{\"nombre\":\"Luis\"}]''), read_fault = None, write_fault = None\<rparr>
       = Response 200 (Json (JArr [JObj [(js_of ''nombre'', JStr (js_of ''Luis''))]]))
   \<and> get_contacts
        (snd (post_contacts 1700000000000
          (request_body \<lparr>nombre = js_of ''Ana'', apellido = js_of ''Diaz'', telefono = js_of ''5551234''\<rparr>)
          \<lparr>document = Some (js_of ''[{\"nombre\":\"Luis\"}]''), read_fault = None, write_fault = None\<rparr>))
       = Response 200 (Json (JArr
           [JObj [(js_of ''nombre'', JStr (js_of ''Luis''))],
            JObj [(js_of ''nombre'', JStr (js_of ''Ana'')), (js_of ''apellido'', JStr (js_of ''Diaz'')),
                  (js_of ''telefono'', JStr (js_of ''5551234'')),
                  (js_of ''id'', JStr (js_of ''1700000000000''))]]))"
proof -
  let ?b = "request_body \<lparr>nombre = js_of ''Ana'', apellido = js_of ''Diaz'', telefono = js_of ''5551234''\<rparr>"
  let ?w = "\<lparr>document = Some (js_of ''[{\"nombre\":\"Luis\"}]''), read_fault = None, write_fault = None\<rparr>"
  have b: "wf ?b"
    by (simp add: request_body_def k_nombre_def k_apellido_def k_telefono_def js_of_simps
          digits_only_def is_digit_def)
  have v: "valid_request ?b"
    by (simp add: valid_request_def nonempty_string_field_def string_field_def request_body_def
          k_nombre_def k_apellido_def k_telefono_def js_of_simps)
  have s: "serving ?w"
    by (simp add: serving_def)
  have g: "get_contacts ?w = Response 200 (Json (JArr [JObj [(js_of ''nombre'', JStr (js_of ''Luis''))]]))"
    by (simp add: get_contacts_200 readContacts_cases JSON_parse_def js_of_simps
          skip_ws_def is_ws_def digits_only_def is_digit_def unescape_def)
  have n: "new_contact 1700000000000 ?b =
      JObj [(js_of ''nombre'', JStr (js_of ''Ana'')), (js_of ''apellido'', JStr (js_of ''Diaz'')),
            (js_of ''telefono'', JStr (js_of ''5551234'')),
            (js_of ''id'', JStr (js_of ''1700000000000''))]"
    by (simp add: new_contact_def request_body_def k_nombre_def k_apellido_def k_telefono_def
          k_id_def js_of_simps number_toString_def nat_digits.simps)
  show ?thesis
    using create_then_list [OF b v s g, of 1700000000000] b v s g n by simp
qed

subsection \<open>Create rejects a request with a missing field\<close>

text \<open>
  C2. When at least one of \<open>nombre\<close>, \<open>apellido\<close>, \<open>telefono\<close> is missing or is the
  empty string, Create answers 400 with its message and the world is left as it was:
  nothing is read or written, so the persisted document and what List returns do not
  change.
\<close>

theorem create_rejects_missing_field:
  assumes "absent_or_empty b k_nombre \<or> absent_or_empty b k_apellido
           \<or> absent_or_empty b k_telefono"
  shows "post_contacts now b w =
           (Response 400
              (message_body ''Faltan campos obligatorios: nombre, apellido o telefono.''), w)
    \<and> document (snd (post_contacts now b w)) = document w
    \<and> get_contacts (snd (post_contacts now b w)) = get_contacts w"
  using fields_missing_True [OF assms]
  by (simp add: post_contacts_def post_attempt_def in_world_def)

theorem create_rejects_missing_field_witness:
  "(absent_or_empty
      (JObj [(k_nombre, JStr []), (k_apellido, JStr (js_of ''Perez'')),
             (k_telefono, JStr (js_of ''8091234567''))]) k_nombre
    \<or> absent_or_empty
      (JObj [(k_nombre, JStr []), (k_apellido, JStr (js_of ''Perez'')),
             (k_telefono, JStr (js_of ''8091234567''))]) k_apellido
    \<or> absent_or_empty
      (JObj [(k_nombre, JStr []), (k_apellido, JStr (js_of ''Perez'')),
             (k_telefono, JStr (js_of ''8091234567''))]) k_telefono)
   \<and> post_contacts 1700000000000
        (JObj [(k_nombre, JStr []), (k_apellido, JStr (js_of ''Perez'')),
               (k_telefono, JStr (js_of ''8091234567''))])
        \<lparr>document = Some (js_of ''[]''), read_fault = None, write_fault = None\<rparr>
      = (Response 400 (Json (JObj [(js_of ''message'',
           JStr (js_of ''Faltan campos obligatorios: nombre, apellido o telefono.''))])),
         \<lparr>document = Some (js_of ''[]''), read_fault = None, write_fault = None\<rparr>)"
proof -
  let ?b = "JObj [(k_nombre, JStr []), (k_apellido, JStr (js_of ''Perez'')),
                  (k_telefono, JStr (js_of ''8091234567''))]"
  have h: "absent_or_empty ?b k_nombre \<or> absent_or_empty ?b k_apellido
           \<or> absent_or_empty ?b k_telefono"
    by (simp add: absent_or_empty_def)
  show ?thesis
    using create_rejects_missing_field
      [OF h, of 1700000000000
        "\<lparr>document = Some (js_of ''[]''), read_fault = None, write_fault = None\<rparr>"] h
    by (simp add: message_body_def)
qed

subsection \<open>readContacts recovers from a missing or malformed document\<close>

text \<open>
  C3. \<open>readContacts\<close> returns the empty array when the document does not exist and
  when its text is not JSON, and throws again every read error whose code is not
  \<open>ENOENT\<close>.
\<close>

theorem readContacts_recovery:
  "(read_fault w = None \<and> document w = None \<longrightarrow> readContacts w = Inr (JArr []))
   \<and> (read_fault w = None \<and> document w = Some s \<and> JSON_parse s = Syntax_Error
        \<longrightarrow> readContacts w = Inr (JArr []))
   \<and> (read_fault w = Some code \<and> code \<noteq> ''ENOENT''
        \<longrightarrow> readContacts w = Inl (IOError code))"
  by (simp add: readContacts_cases)

theorem readContacts_recovery_witness:
  "readContacts \<lparr>document = None, read_fault = None, write_fault = None\<rparr> = Inr (JArr [])
   \<and> JSON_parse (js_of ''{not json'') = Syntax_Error
   \<and> readContacts \<lparr>document = Some (js_of ''{not json''), read_fault = None, write_fault = None\<rparr>
       = Inr (JArr [])
   \<and> JSON_parse [] = Syntax_Error
   \<and> readContacts \<lparr>document = Some [], read_fault = None, write_fault = None\<rparr> = Inr (JArr [])
   \<and> readContacts \<lparr>document = Some (js_of ''[]''), read_fault = Some ''EACCES'', write_fault = None\<rparr>
       = Inl (IOError ''EACCES'')"
proof -
  have p: "JSON_parse (js_of ''{not json'') = Syntax_Error"
    by (simp add: JSON_parse_def js_of_simps skip_ws_def is_ws_def)
  have e: "JSON_parse [] = Syntax_Error"
    by (simp add: JSON_parse_def skip_ws_def)
  show ?thesis
    using p e
      readContacts_recovery [of "\<lparr>document = None, read_fault = None, write_fault = None\<rparr>"]
      readContacts_recovery
        [of "\<lparr>document = Some (js_of ''{not json''), read_fault = None, write_fault = None\<rparr>"
          "js_of ''{not json''"]
      readContacts_recovery
        [of "\<lparr>document = Some [], read_fault = None, write_fault = None\<rparr>" "[]"]
      readContacts_recovery
        [of "\<lparr>document = Some (js_of ''[]''), read_fault = Some ''EACCES'', write_fault = None\<rparr>"
          _ "''EACCES''"]
    by simp
qed

subsection \<open>Writing back what was read\<close>

text \<open>
  C4. On a store that serves reads and writes, writing back what \<open>readContacts\<close>
  returned and reading again returns the same value, and writing it once more leaves the
  document's text as the first write made it: the format \<open>JSON.stringify(_, null, 2)\<close>
  round-trips through \<open>JSON.parse\<close>.
\<close>

theorem save_load_roundtrip:
  assumes "serving w" and "readContacts w = Inr v"
  shows "writeContacts v w = Inr (w\<lparr>document := Some (JSON_stringify v)\<rparr>)
    \<and> readContacts (w\<lparr>document := Some (JSON_stringify v)\<rparr>) = Inr v
    \<and> writeContacts v (w\<lparr>document := Some (JSON_stringify v)\<rparr>)
          = Inr (w\<lparr>document := Some (JSON_stringify v)\<rparr>)"
  using assms readContacts_wf [OF assms(2)]
  by (simp add: serving_def writeContacts_def fs_writeFile_def readContacts_cases JSON_roundtrip)

theorem save_load_roundtrip_witness:
  "serving \<lparr>document = Some (js_of ''[{\"nombre\":\"Ana\",\"id\":17}]''),
            read_fault = None, write_fault = None\<rparr>
   \<and> readContacts \<lparr>document = Some (js_of ''[{\"nombre\":\"Ana\",\"id\":17}]''),
            read_fault = None, write_fault = None\<rparr>
       = Inr (JArr [JObj [(js_of ''nombre'', JStr (js_of ''Ana'')), (js_of ''id'', JNum 17)]])
   \<and> readContacts
        (\<lparr>document = Some (js_of ''[{\"nombre\":\"Ana\",\"id\":17}]''),
            read_fault = None, write_fault = None\<rparr>
           \<lparr>document := Some (JSON_stringify
              (JArr [JObj [(js_of ''nombre'', JStr (js_of ''Ana'')),
                           (js_of ''id'', JNum 17)]]))\<rparr>)
       = Inr (JArr [JObj [(js_of ''nombre'', JStr (js_of ''Ana'')), (js_of ''id'', JNum 17)]])"
proof -
  let ?w = "\<lparr>document = Some (js_of ''[{\"nombre\":\"Ana\",\"id\":17}]''),
             read_fault = None, write_fault = None\<rparr>"
  let ?v = "JArr [JObj [(js_of ''nombre'', JStr (js_of ''Ana'')), (js_of ''id'', JNum 17)]]"
  have s: "serving ?w"
    by (simp add: serving_def)
  have r: "readContacts ?w = Inr ?v"
    by (simp add: readContacts_cases JSON_parse_def js_of_simps
          skip_ws_def is_ws_def digits_only_def is_digit_def unescape_def
          parse_number_def parse_integer_def starts_fraction_def max_safe_integer_def)
  show ?thesis
    using save_load_roundtrip [OF s r] s r by simp
qed

subsection \<open>The invariant of the persisted contacts\<close>

text \<open>
  C5, as the claim states it, fails: on an empty store, which satisfies the stated
  invariant, Create accepts a contact whose phone has one digit and persists it; List
  then returns it.
\<close>

theorem spec_invariant_counterexample:
  "store_invariant spec_contact_ok \<lparr>document = None, read_fault = None, write_fault = None\<rparr>
   \<and> fst (post_contacts 1700000000000
        (JObj [(k_nombre, JStr (js_of ''Ana'')), (k_apellido, JStr (js_of ''Diaz'')),
               (k_telefono, JStr (js_of ''1''))])
        \<lparr>document = None, read_fault = None, write_fault = None\<rparr>)
      = Response 201 (Text ''Contacto agregado exitosamente'')
   \<and> get_contacts
        (snd (post_contacts 1700000000000
          (JObj [(k_nombre, JStr (js_of ''Ana'')), (k_apellido, JStr (js_of ''Diaz'')),
                 (k_telefono, JStr (js_of ''1''))])
          \<lparr>document = None, read_fault = None, write_fault = None\<rparr>))
      = Response 200 (Json (JArr
          [JObj [(k_nombre, JStr (js_of ''Ana'')), (k_apellido, JStr (js_of ''Diaz'')),
                 (k_telefono, JStr (js_of ''1'')), (k_id, JStr (js_of ''1700000000000''))]]))
   \<and> \<not> store_invariant spec_contact_ok
        (snd (post_contacts 1700000000000
          (JObj [(k_nombre, JStr (js_of ''Ana'')), (k_apellido, JStr (js_of ''Diaz'')),
                 (k_telefono, JStr (js_of ''1''))])
          \<lparr>document = None, read_fault = None, write_fault = None\<rparr>))"
proof -
  let ?b = "JObj [(k_nombre, JStr (js_of ''Ana'')), (k_apellido, JStr (js_of ''Diaz'')),
                  (k_telefono, JStr (js_of ''1''))]"
  let ?w = "\<lparr>document = None, read_fault = None, write_fault = None\<rparr>"
  have b: "wf ?b"
    by (simp add: k_nombre_def k_apellido_def k_telefono_def js_of_simps
          digits_only_def is_digit_def)
  have ok: "fields_missing ?b = Inr False"
    by (simp add: fields_missing_def k_nombre_def k_apellido_def k_telefono_def js_of_simps)
  have s: "serving ?w" by (simp add: serving_def)
  have r: "readContacts ?w = Inr (JArr [])" by (simp add: readContacts_cases)
  have t: "number_toString 1700000000000 = js_of ''1700000000000''"
    by (simp add: number_toString_def nat_digits.simps js_of_simps)
  have n: "new_contact 1700000000000 ?b
             = JObj [(k_nombre, JStr (js_of ''Ana'')), (k_apellido, JStr (js_of ''Diaz'')),
                     (k_telefono, JStr (js_of ''1'')), (k_id, JStr (js_of ''1700000000000''))]"
    using k_distinct by (simp add: new_contact_def t)
  note post = post_contacts_success [OF b ok s r, of 1700000000000]
  have "\<not> phone_in_bound (new_contact 1700000000000 ?b)"
    by (simp add: phone_in_bound_def string_field_def new_contact_def map_of_obj_set
          k_nombre_def k_apellido_def k_telefono_def k_id_def js_of_simps
          strip_non_digits_def is_digit_def)
  then have "\<not> store_invariant spec_contact_ok (snd (post_contacts 1700000000000 ?b ?w))"
    using post(1,2)
    by (simp add: store_invariant_def persisted_def stored_def spec_contact_ok_def)
  moreover have "store_invariant spec_contact_ok ?w"
    using r by (simp add: store_invariant_def persisted_def)
  moreover have "get_contacts (snd (post_contacts 1700000000000 ?b ?w))
      = Response 200 (Json (JArr [new_contact 1700000000000 ?b]))"
    using post(1,2) by (simp add: get_contacts_200)
  ultimately show ?thesis
    using post(1) n by (simp add: created_def)
qed

text \<open>
  C5, as the code has it. Create preserves this invariant of the persisted collection,
  for every request body and every outcome, a failed read or write included: every
  contact has an \<open>id\<close> that is a non-empty string and the properties \<open>nombre\<close>,
  \<open>apellido\<close> and \<open>telefono\<close>, each holding what is read back of a value that was truthy
  in the request. That is any value but \<open>false\<close>, \<open>0\<close> and the empty string; it need not
  be a string, and it is \<open>null\<close> where the request held a number beyond the range of a
  double. The digit count of the phone is not part of what the server checks. List
  writes nothing. After a write cut short the document is no JSON, \<open>readContacts\<close>
  reads it as the empty sequence, and the invariant holds of that.
\<close>

theorem server_invariant_preserved:
  assumes "request_value b" and "store_invariant server_contact_ok w"
  shows "store_invariant server_contact_ok (snd (post_contacts now b w))"
proof -
  obtain cs0 where p0: "persisted w = Inr (JArr cs0)" and old0: "list_all server_contact_ok cs0"
    using assms(2) by (auto simp: store_invariant_def split: sum.splits jsval.splits)
  let ?c = "new_contact now b"
  consider "snd (post_contacts now b w) = w"
    | cs where "fields_missing b = Inr False" "readContacts w = Inr (JArr cs)"
        "snd (post_contacts now b w) = w\<lparr>document := Some (JSON_stringify (JArr (cs @ [?c])))\<rparr>"
    | cs k inside where "fields_missing b = Inr False" "readContacts w = Inr (JArr cs)"
        "snd (post_contacts now b w)
           = w\<lparr>document := Some (cut_short k inside (JSON_stringify (JArr (cs @ [?c]))))\<rparr>"
    using post_contacts_world [of now b w] unfolding stored_def by blast
  then show ?thesis
  proof cases
    case 1
    then show ?thesis using assms(2) by simp
  next
    case 2
    have old: "list_all server_contact_ok cs"
      using readContacts_persisted [OF 2(2)] p0 old0 by auto
    have new: "server_contact_ok (json_image ?c)"
      using 2(1) by (rule server_contact_ok_new)
    have "persisted (w\<lparr>document := Some (JSON_stringify (JArr (cs @ [?c])))\<rparr>)
            = Inr (JArr (cs @ [json_image ?c]))"
      using readContacts_wf [OF 2(2)] request_value_new_contact [OF assms(1)]
      by (rule persisted_written)
    then show ?thesis
      using old new 2(3) by (simp add: store_invariant_def)
  next
    case 3
    have old: "list_all server_contact_ok cs"
      using readContacts_persisted [OF 3(2)] p0 old0 by auto
    have new: "server_contact_ok (json_image ?c)"
      using 3(1) by (rule server_contact_ok_new)
    from persisted_cut_short [OF readContacts_wf [OF 3(2)]
        request_value_new_contact [OF assms(1), of now], where w = w and k = k and inside = inside]
    show ?thesis
      using old new 3(3) by (auto simp: store_invariant_def)
  qed
qed

theorem server_invariant_preserved_witness:
  "request_value (JObj [(k_nombre, JInfinity False), (k_apellido, JStr (js_of ''Diaz'')),
                        (k_telefono, JStr (js_of ''5551234''))])
   \<and> store_invariant server_contact_ok \<lparr>document = None, read_fault = None, write_fault = None\<rparr>
   \<and> fst (post_contacts 1700000000000
        (JObj [(k_nombre, JInfinity False), (k_apellido, JStr (js_of ''Diaz'')),
               (k_telefono, JStr (js_of ''5551234''))])
        \<lparr>document = None, read_fault = None, write_fault = None\<rparr>)
      = Response 201 (Text ''Contacto agregado exitosamente'')
   \<and> get_contacts
        (snd (post_contacts 1700000000000
          (JObj [(k_nombre, JInfinity False), (k_apellido, JStr (js_of ''Diaz'')),
                 (k_telefono, JStr (js_of ''5551234''))])
          \<lparr>document = None, read_fault = None, write_fault = None\<rparr>))
      = Response 200 (Json (JArr
          [JObj [(k_nombre, JNull), (k_apellido, JStr (js_of ''Diaz'')),
                 (k_telefono, JStr (js_of ''5551234'')),
                 (k_id, JStr (js_of ''1700000000000''))]]))
   \<and> store_invariant server_contact_ok
        (snd (post_contacts 1700000000000
          (JObj [(k_nombre, JInfinity False), (k_apellido, JStr (js_of ''Diaz'')),
                 (k_telefono, JStr (js_of ''5551234''))])
          \<lparr>document = None, read_fault = None, write_fault = None\<rparr>))
   \<and> request_value (JObj [(k_nombre, JStr (js_of ''Ana'')), (k_apellido, JStr (js_of ''Diaz'')),
                          (k_telefono, JStr (js_of ''5551234''))])
   \<and> store_invariant server_contact_ok
        \<lparr>document = Some (js_of ''[]''), read_fault = None,
         write_fault = Some (Cut_Short ''ENOSPC'' 1 False)\<rparr>
   \<and> post_contacts 1700000000000
        (JObj [(k_nombre, JStr (js_of ''Ana'')), (k_apellido, JStr (js_of ''Diaz'')),
               (k_telefono, JStr (js_of ''5551234''))])
        \<lparr>document = Some (js_of ''[]''), read_fault = None,
         write_fault = Some (Cut_Short ''ENOSPC'' 1 False)\<rparr>
      = (Response 500 (message_body ''Error interno del servidor al agregar contacto.''),
         \<lparr>document = Some (js_of ''[''), read_fault = None,
          write_fault = Some (Cut_Short ''ENOSPC'' 1 False)\<rparr>)
   \<and> store_invariant server_contact_ok
        (snd (post_contacts 1700000000000
          (JObj [(k_nombre, JStr (js_of ''Ana'')), (k_apellido, JStr (js_of ''Diaz'')),
                 (k_telefono, JStr (js_of ''5551234''))])
          \<lparr>document = Some (js_of ''[]''), read_fault = None,
           write_fault = Some (Cut_Short ''ENOSPC'' 1 False)\<rparr>))"
proof -
  let ?b = "JObj [(k_nombre, JInfinity False), (k_apellido, JStr (js_of ''Diaz'')),
                  (k_telefono, JStr (js_of ''5551234''))]"
  let ?w = "\<lparr>document = None, read_fault = None, write_fault = None\<rparr>"
  let ?b' = "JObj [(k_nombre, JStr (js_of ''Ana'')), (k_apellido, JStr (js_of ''Diaz'')),
                   (k_telefono, JStr (js_of ''5551234''))]"
  let ?w' = "\<lparr>document = Some (js_of ''[]''), read_fault = None,
              write_fault = Some (Cut_Short ''ENOSPC'' 1 False)\<rparr>"
  have b: "request_value ?b" "request_value ?b'"
    by (simp_all add: request_value_def k_nombre_def k_apellido_def k_telefono_def js_of_simps
          digits_only_def is_digit_def)
  have ok: "fields_missing ?b = Inr False"
    by (simp add: fields_missing_def k_nombre_def k_apellido_def k_telefono_def js_of_simps)
  have r: "readContacts ?w = Inr (JArr [])" by (simp add: readContacts_cases)
  have i: "store_invariant server_contact_ok ?w"
    using r by (simp add: store_invariant_def persisted_def)
  have i': "store_invariant server_contact_ok ?w'"
    by (simp add: store_invariant_def persisted_def readContacts_cases JSON_parse_def
          js_of_simps skip_ws_def is_ws_def)
  have t: "number_toString 1700000000000 = js_of ''1700000000000''"
    by (simp add: number_toString_def nat_digits.simps js_of_simps)
  have n: "json_image (new_contact 1700000000000 ?b)
             = JObj [(k_nombre, JNull), (k_apellido, JStr (js_of ''Diaz'')),
                     (k_telefono, JStr (js_of ''5551234'')),
                     (k_id, JStr (js_of ''1700000000000''))]"
    using k_distinct by (simp add: new_contact_def t)
  have p: "post_contacts 1700000000000 ?b ?w
             = (created, stored ([] @ [new_contact 1700000000000 ?b]) ?w)"
    using ok r by (rule post_attempt_success) simp
  have "persisted (stored ([] @ [new_contact 1700000000000 ?b]) ?w)
          = Inr (JArr ([] @ [json_image (new_contact 1700000000000 ?b)]))"
    unfolding stored_def
    using request_value_new_contact [OF b(1)] by (intro persisted_written) simp
  then have g: "get_contacts (snd (post_contacts 1700000000000 ?b ?w))
      = Response 200 (Json (JArr [json_image (new_contact 1700000000000 ?b)]))"
    using p by (simp add: get_contacts_200 persisted_def stored_def)
  have p': "post_contacts 1700000000000 ?b' ?w'
      = (Response 500 (message_body ''Error interno del servidor al agregar contacto.''),
         \<lparr>document = Some (js_of ''[''), read_fault = None,
          write_fault = Some (Cut_Short ''ENOSPC'' 1 False)\<rparr>)"
    by (simp add: post_contacts_def post_attempt_def in_world_def fields_missing_def
          k_nombre_def k_apellido_def k_telefono_def k_id_def js_of_simps readContacts_cases
          JSON_parse_def skip_ws_def is_ws_def writeContacts_def fs_writeFile_def cut_short_def
          JSON_stringify_def on_error_def)
  show ?thesis
    using server_invariant_preserved [OF b(1) i, of 1700000000000]
      server_invariant_preserved [OF b(2) i', of 1700000000000] b i i' p g n p'
    by (simp add: created_def)
qed

subsection \<open>The id of a new contact\<close>

text \<open>
  C6 fails on the code. Two requests handled in the same millisecond read the same
  \<open>Date.now()\<close>: both succeed, both contacts are persisted, and both carry the same
  \<open>id\<close>.
\<close>

theorem same_millisecond_same_id:
  "fst (post_contacts 1700000000000
          (JObj [(k_nombre, JStr (js_of ''Ana'')), (k_apellido, JStr (js_of ''Diaz'')),
                 (k_telefono, JStr (js_of ''5551234''))])
          \<lparr>document = None, read_fault = None, write_fault = None\<rparr>)
     = Response 201 (Text ''Contacto agregado exitosamente'')
   \<and> fst (post_contacts 1700000000000
          (JObj [(k_nombre, JStr (js_of ''Luis'')), (k_apellido, JStr (js_of ''Mora'')),
                 (k_telefono, JStr (js_of ''5559876''))])
          (snd (post_contacts 1700000000000
             (JObj [(k_nombre, JStr (js_of ''Ana'')), (k_apellido, JStr (js_of ''Diaz'')),
                    (k_telefono, JStr (js_of ''5551234''))])
             \<lparr>document = None, read_fault = None, write_fault = None\<rparr>)))
     = Response 201 (Text ''Contacto agregado exitosamente'')
   \<and> get_contacts
        (snd (post_contacts 1700000000000
          (JObj [(k_nombre, JStr (js_of ''Luis'')), (k_apellido, JStr (js_of ''Mora'')),
                 (k_telefono, JStr (js_of ''5559876''))])
          (snd (post_contacts 1700000000000
             (JObj [(k_nombre, JStr (js_of ''Ana'')), (k_apellido, JStr (js_of ''Diaz'')),
                    (k_telefono, JStr (js_of ''5551234''))])
             \<lparr>document = None, read_fault = None, write_fault = None\<rparr>))))
     = Response 200 (Json (JArr
         [JObj [(k_nombre, JStr (js_of ''Ana'')), (k_apellido, JStr (js_of ''Diaz'')),
                (k_telefono, JStr (js_of ''5551234'')), (k_id, JStr (js_of ''1700000000000''))],
          JObj [(k_nombre, JStr (js_of ''Luis'')), (k_apellido, JStr (js_of ''Mora'')),
                (k_telefono, JStr (js_of ''5559876'')), (k_id, JStr (js_of ''1700000000000''))]]))"
proof -
  let ?b1 = "JObj [(k_nombre, JStr (js_of ''Ana'')), (k_apellido, JStr (js_of ''Diaz'')),
                   (k_telefono, JStr (js_of ''5551234''))]"
  let ?b2 = "JObj [(k_nombre, JStr (js_of ''Luis'')), (k_apellido, JStr (js_of ''Mora'')),
                   (k_telefono, JStr (js_of ''5559876''))]"
  let ?w = "\<lparr>document = None, read_fault = None, write_fault = None\<rparr>"
  have wfb: "wf ?b1" "wf ?b2"
    by (simp_all add: k_nombre_def k_apellido_def k_telefono_def js_of_simps
          digits_only_def is_digit_def)
  have ok: "fields_missing ?b1 = Inr False" "fields_missing ?b2 = Inr False"
    by (simp_all add: fields_missing_def k_nombre_def k_apellido_def k_telefono_def js_of_simps)
  have s: "serving ?w" by (simp add: serving_def)
  have r: "readContacts ?w = Inr (JArr [])" by (simp add: readContacts_cases)
  have t: "number_toString 1700000000000 = js_of ''1700000000000''"
    by (simp add: number_toString_def nat_digits.simps js_of_simps)
  have n: "new_contact 1700000000000 ?b1
             = JObj [(k_nombre, JStr (js_of ''Ana'')), (k_apellido, JStr (js_of ''Diaz'')),
                     (k_telefono, JStr (js_of ''5551234'')), (k_id, JStr (js_of ''1700000000000''))]"
    "new_contact 1700000000000 ?b2
             = JObj [(k_nombre, JStr (js_of ''Luis'')), (k_apellido, JStr (js_of ''Mora'')),
                     (k_telefono, JStr (js_of ''5559876'')), (k_id, JStr (js_of ''1700000000000''))]"
    using k_distinct by (simp_all add: new_contact_def t)
  note two = two_creates [OF wfb(1) ok(1) wfb(2) ok(2) s r, of 1700000000000 1700000000000]
  show ?thesis
    using two n by (simp add: created_def get_contacts_200)
qed

subsection \<open>The scenario of Juan Perez\<close>

text \<open>
  C7, as the claim states it, fails: the Create operation stores the phone it is sent.
  A request with \<open>telefono\<close> \<open>809-123-4567\<close> is persisted with the hyphens.
\<close>

theorem create_keeps_phone_counterexample:
  "get_contacts
     (snd (post_contacts 1700000000000
       (request_body \<lparr>nombre = js_of ''Juan'', apellido = js_of ''Perez'',
                      telefono = js_of ''809-123-4567''\<rparr>)
       \<lparr>document = None, read_fault = None, write_fault = None\<rparr>))
     = Response 200 (Json (JArr
         [JObj [(k_nombre, JStr (js_of ''Juan'')), (k_apellido, JStr (js_of ''Perez'')),
                (k_telefono, JStr (js_of ''809-123-4567'')),
                (k_id, JStr (js_of ''1700000000000''))]]))
   \<and> js_of ''809-123-4567'' \<noteq> js_of ''8091234567''"
proof -
  let ?b = "request_body \<lparr>nombre = js_of ''Juan'', apellido = js_of ''Perez'',
                           telefono = js_of ''809-123-4567''\<rparr>"
  let ?w = "\<lparr>document = None, read_fault = None, write_fault = None\<rparr>"
  have b: "wf ?b"
    by (simp add: request_body_def k_nombre_def k_apellido_def k_telefono_def js_of_simps
          digits_only_def is_digit_def)
  have ok: "fields_missing ?b = Inr False"
    by (simp add: fields_missing_def request_body_def k_nombre_def k_apellido_def
          k_telefono_def js_of_simps)
  have s: "serving ?w" by (simp add: serving_def)
  have r: "readContacts ?w = Inr (JArr [])" by (simp add: readContacts_cases)
  have t: "number_toString 1700000000000 = js_of ''1700000000000''"
    by (simp add: number_toString_def nat_digits.simps js_of_simps)
  have n: "new_contact 1700000000000 ?b
             = JObj [(k_nombre, JStr (js_of ''Juan'')), (k_apellido, JStr (js_of ''Perez'')),
                     (k_telefono, JStr (js_of ''809-123-4567'')),
                     (k_id, JStr (js_of ''1700000000000''))]"
    using k_distinct by (simp add: new_contact_def request_body_def t)
  note post = post_contacts_success [OF b ok s r, of 1700000000000]
  show ?thesis
    using post(1,2) n by (simp add: get_contacts_200 js_of_simps)
qed

text \<open>
  C7, as the code has it. The normalisation is the client's, before the request is
  made. Whatever the form's fields hold, a contact that \<open>handleFormSubmit\<close> hands to
  \<open>addContact\<close> has as its phone the digits of what was typed and nothing else, between
  7 and 15 of them. For \<open>Juan Perez, 809-123-4567\<close> that phone is \<open>8091234567\<close>, ten
  digits.
\<close>

theorem form_submit_normalises_phone:
  assumes "handleFormSubmit isLoading (Some formData) = Submitted contactData"
  shows "telefono contactData = strip_non_digits (or_empty (form_telefono formData))
    \<and> list_all is_digit (telefono contactData)
    \<and> 7 \<le> length (telefono contactData) \<and> length (telefono contactData) \<le> 15"
proof -
  let ?d = "\<lparr>nombre = js_trim (or_empty (form_nombre formData)),
             apellido = js_trim (or_empty (form_apellido formData)),
             telefono = js_trim (or_empty (form_telefono formData))\<rparr>"
  have v: "fst (validateContact ?d)"
    and c: "telefono contactData = strip_non_digits (js_trim (or_empty (form_telefono formData)))"
    using assms by (auto simp: handleFormSubmit_def Let_def split: if_splits)
  have "isValidPhone (telefono ?d)"
    using v by (rule validateContact_phone)
  then have "7 \<le> length (strip_non_digits (js_trim (or_empty (form_telefono formData))))
      \<and> length (strip_non_digits (js_trim (or_empty (form_telefono formData)))) \<le> 15"
    by (simp add: isValidPhone_def Let_def split: if_splits)
  then show ?thesis
    using c by (simp add: strip_non_digits_trim) (simp add: strip_non_digits_def list_all_iff)
qed

theorem form_submit_normalises_phone_witness:
  "handleFormSubmit False
     (Some \<lparr>form_nombre = Some (js_of ''Juan''), form_apellido = Some (js_of ''Perez''),
      form_telefono = Some (js_of ''809-123-4567'')\<rparr>)
   = Submitted \<lparr>nombre = js_of ''Juan'', apellido = js_of ''Perez'',
                 telefono = js_of ''8091234567''\<rparr>
   \<and> js_of ''8091234567'' = strip_non_digits (js_of ''809-123-4567'')
   \<and> list_all is_digit (js_of ''8091234567'')
   \<and> length (js_of ''8091234567'') = 10"
  using form_submit_normalises_phone [OF submit_juan] submit_juan
  by (simp add: or_empty_def js_of_def strip_non_digits_def is_digit_def)

subsection \<open>List returns what is stored, in order\<close>

text \<open>
  C8. List answers with exactly what \<open>readContacts\<close> returns. So, on a store that
  serves reads and writes, after two valid Create calls one after the other List returns
  the earlier sequence followed by the two new contacts in the order of creation.
\<close>

theorem list_is_load_and_keeps_order:
  assumes "wf b1" and "valid_request b1" and "wf b2" and "valid_request b2"
    and "serving w" and "readContacts w = Inr (JArr cs)"
  shows "(\<forall>u v. readContacts u = Inr v \<longrightarrow> get_contacts u = Response 200 (Json v))
    \<and> get_contacts w = Response 200 (Json (JArr cs))
    \<and> fst (post_contacts now1 b1 w) = Response 201 (Text ''Contacto agregado exitosamente'')
    \<and> fst (post_contacts now2 b2 (snd (post_contacts now1 b1 w)))
         = Response 201 (Text ''Contacto agregado exitosamente'')
    \<and> get_contacts (snd (post_contacts now2 b2 (snd (post_contacts now1 b1 w))))
         = Response 200 (Json (JArr (cs @ [new_contact now1 b1, new_contact now2 b2])))"
  using two_creates [OF assms(1) valid_request_fields [OF assms(2)]
      assms(3) valid_request_fields [OF assms(4)] assms(5,6), of now1 now2] assms(6)
  by (simp add: get_contacts_200 created_def)

theorem list_is_load_and_keeps_order_witness:
  "wf (request_body \<lparr>nombre = js_of ''Ana'', apellido = js_of ''Diaz'', telefono = js_of ''5551234''\<rparr>)
   \<and> valid_request
        (request_body \<lparr>nombre = js_of ''Ana'', apellido = js_of ''Diaz'', telefono = js_of ''5551234''\<rparr>)
   \<and> wf (request_body \<lparr>nombre = js_of ''Luis'', apellido = js_of ''Mora'', telefono = js_of ''5559876''\<rparr>)
   \<and> valid_request
        (request_body \<lparr>nombre = js_of ''Luis'', apellido = js_of ''Mora'', telefono = js_of ''5559876''\<rparr>)
   \<and> serving \<lparr>document = None, read_fault = None, write_fault = None\<rparr>
   \<and> readContacts \<lparr>document = None, read_fault = None, write_fault = None\<rparr> = Inr (JArr [])
   \<and> get_contacts
        (snd (post_contacts 1700000000500
          (request_body \<lparr>nombre = js_of ''Luis'', apellido = js_of ''Mora'', telefono = js_of ''5559876''\<rparr>)
          (snd (post_contacts 1700000000000
            (request_body \<lparr>nombre = js_of ''Ana'', apellido = js_of ''Diaz'', telefono = js_of ''5551234''\<rparr>)
            \<lparr>document = None, read_fault = None, write_fault = None\<rparr>))))
       = Response 200 (Json (JArr
           [JObj [(k_nombre, JStr (js_of ''Ana'')), (k_apellido, JStr (js_of ''Diaz'')),
                  (k_telefono, JStr (js_of ''5551234'')), (k_id, JStr (js_of ''1700000000000''))],
            JObj [(k_nombre, JStr (js_of ''Luis'')), (k_apellido, JStr (js_of ''Mora'')),
                  (k_telefono, JStr (js_of ''5559876'')), (k_id, JStr (js_of ''1700000000500''))]]))"
proof -
  let ?b1 = "request_body \<lparr>nombre = js_of ''Ana'', apellido = js_of ''Diaz'', telefono = js_of ''5551234''\<rparr>"
  let ?b2 = "request_body \<lparr>nombre = js_of ''Luis'', apellido = js_of ''Mora'', telefono = js_of ''5559876''\<rparr>"
  let ?w = "\<lparr>document = None, read_fault = None, write_fault = None\<rparr>"
  have wfb: "wf ?b1" "wf ?b2"
    by (simp_all add: request_body_def k_nombre_def k_apellido_def k_telefono_def js_of_simps
          digits_only_def is_digit_def)
  have v: "valid_request ?b1" "valid_request ?b2"
    by (simp_all add: valid_request_def nonempty_string_field_def string_field_def
          request_body_def k_nombre_def k_apellido_def k_telefono_def js_of_simps)
  have s: "serving ?w" by (simp add: serving_def)
  have r: "readContacts ?w = Inr (JArr [])" by (simp add: readContacts_cases)
  have t: "number_toString 1700000000000 = js_of ''1700000000000''"
    "number_toString 1700000000500 = js_of ''1700000000500''"
    by (simp_all add: number_toString_def nat_digits.simps js_of_simps)
  have n: "new_contact 1700000000000 ?b1
             = JObj [(k_nombre, JStr (js_of ''Ana'')), (k_apellido, JStr (js_of ''Diaz'')),
                     (k_telefono, JStr (js_of ''5551234'')), (k_id, JStr (js_of ''1700000000000''))]"
    "new_contact 1700000000500 ?b2
             = JObj [(k_nombre, JStr (js_of ''Luis'')), (k_apellido, JStr (js_of ''Mora'')),
                     (k_telefono, JStr (js_of ''5559876'')), (k_id, JStr (js_of ''1700000000500''))]"
    using k_distinct by (simp_all add: new_contact_def request_body_def t)
  show ?thesis
    using list_is_load_and_keeps_order [OF wfb(1) v(1) wfb(2) v(2) s r, of 1700000000000 1700000000500]
      wfb v s r n
    by simp
qed

subsection \<open>The client's validator\<close>

text \<open>
  C9, as the claim states it, fails for names. \<open>Zo\<close> followed by e with a diaeresis
  (U+00EB) consists of letters only and has length 3, and \<open>isValidName\<close> rejects it: the
  regular expression lists fourteen accented letters and this is not one of them. And
  \<open>A\<close>, a tab, \<open>B\<close> is accepted, since \<open>\\s\<close> matches every white-space character, though
  a tab is none of letter, space, hyphen, apostrophe.
\<close>

theorem isValidName_counterexample:
  "spec_valid_name [90, 111, 235] \<and> \<not> isValidName [90, 111, 235]
   \<and> isValidName [65, 9, 66] \<and> \<not> spec_valid_name [65, 9, 66]"
  by (simp add: spec_valid_name_def spec_letter_def isValidName_def nameRegex_test_def
        name_char_def is_space_def)

text \<open>
  C9, as the code has it. \<open>isValidPhone(p)\<close> is true iff \<open>p\<close> is not empty and has
  between 7 and 15 digits. \<open>isValidName(n)\<close> is true iff \<open>n\<close> is not empty, has between
  2 and 50 characters, and each of them is an unaccented letter \<open>a\<close> to \<open>z\<close> or \<open>A\<close> to
  \<open>Z\<close>, one of the fourteen accented letters of the regular expression, a white-space
  character, an apostrophe or a hyphen. \<open>validateContact\<close> accepts exactly when both
  names and the phone are valid.
\<close>

theorem validator_rules:
  "isValidPhone p
     = (p \<noteq> [] \<and> 7 \<le> length (filter is_digit p) \<and> length (filter is_digit p) \<le> 15)
   \<and> isValidName n
     = (n \<noteq> [] \<and> 2 \<le> length n \<and> length n \<le> 50
        \<and> list_all (\<lambda>c. (97 \<le> c \<and> c \<le> 122) \<or> (65 \<le> c \<and> c \<le> 90)
             \<or> c \<in> {225, 233, 237, 243, 250, 193, 201, 205, 211, 218, 241, 209, 252, 220}
             \<or> is_space c \<or> c = 39 \<or> c = 45) n)
   \<and> fst (validateContact d)
     = (isValidName (nombre d) \<and> isValidName (apellido d) \<and> isValidPhone (telefono d))"
proof -
  have p: "isValidPhone p
     = (p \<noteq> [] \<and> 7 \<le> length (filter is_digit p) \<and> length (filter is_digit p) \<le> 15)"
    by (simp add: isValidPhone_def strip_non_digits_def Let_def)
  have c: "name_char c = ((97 \<le> c \<and> c \<le> 122) \<or> (65 \<le> c \<and> c \<le> 90)
             \<or> c \<in> {225, 233, 237, 243, 250, 193, 201, 205, 211, 218, 241, 209, 252, 220}
             \<or> is_space c \<or> c = 39 \<or> c = 45)" for c
    by (simp add: name_char_def)
  have n: "isValidName n
     = (n \<noteq> [] \<and> 2 \<le> length n \<and> length n \<le> 50
        \<and> list_all (\<lambda>c. (97 \<le> c \<and> c \<le> 122) \<or> (65 \<le> c \<and> c \<le> 90)
             \<or> c \<in> {225, 233, 237, 243, 250, 193, 201, 205, 211, 218, 241, 209, 252, 220}
             \<or> is_space c \<or> c = 39 \<or> c = 45) n)"
    unfolding isValidName_def nameRegex_test_def c by auto
  have e: "isValidName [] = False" "isValidPhone [] = False"
    by (simp_all add: isValidName_def isValidPhone_def)
  have v: "fst (validateContact d)
     = (isValidName (nombre d) \<and> isValidName (apellido d) \<and> isValidPhone (telefono d))"
    by (auto simp: validateContact_def Let_def e)
  from p n v show ?thesis by blast
qed

subsection \<open>An id sent by the client\<close>

text \<open>
  C10. Whatever the request body holds under \<open>id\<close>, a successful Create persists the
  contact with \<open>id\<close> set to \<open>Date.now().toString()\<close>; every other property is stored
  as it was sent.
\<close>

theorem client_id_overwritten:
  assumes "wf b" and "fields_missing b = Inr False" and "serving w"
    and "readContacts w = Inr (JArr cs)"
  shows "get_contacts (snd (post_contacts now b w))
           = Response 200 (Json (JArr (cs @ [new_contact now b])))
    \<and> get_member (new_contact now b) k_id = Inr (Some (JStr (number_toString now)))
    \<and> (\<forall>k. k \<noteq> k_id \<longrightarrow> get_member (new_contact now b) k = get_member b k)
    \<and> wf (new_contact now b)"
proof -
  have t: "truthy_field b k_nombre"
    using assms(2) by (simp add: fields_missing_truthy)
  note post = post_contacts_success [OF assms, of now]
  have "get_contacts (snd (post_contacts now b w))
          = Response 200 (Json (JArr (cs @ [new_contact now b])))"
    using post(1,2) by (simp add: get_contacts_200)
  then show ?thesis
    using t wf_new_contact [OF assms(1), of now] by (simp add: get_member_new_contact)
qed

theorem client_id_overwritten_witness:
  "wf (JObj [(k_id, JStr (js_of ''chosen-by-client'')), (k_nombre, JStr (js_of ''Ana'')),
             (k_apellido, JStr (js_of ''Diaz'')), (k_telefono, JStr (js_of ''5551234''))])
   \<and> fields_missing
        (JObj [(k_id, JStr (js_of ''chosen-by-client'')), (k_nombre, JStr (js_of ''Ana'')),
               (k_apellido, JStr (js_of ''Diaz'')), (k_telefono, JStr (js_of ''5551234''))])
      = Inr False
   \<and> serving \<lparr>document = None, read_fault = None, write_fault = None\<rparr>
   \<and> readContacts \<lparr>document = None, read_fault = None, write_fault = None\<rparr> = Inr (JArr [])
   \<and> get_contacts
        (snd (post_contacts 1700000000000
          (JObj [(k_id, JStr (js_of ''chosen-by-client'')), (k_nombre, JStr (js_of ''Ana'')),
                 (k_apellido, JStr (js_of ''Diaz'')), (k_telefono, JStr (js_of ''5551234''))])
          \<lparr>document = None, read_fault = None, write_fault = None\<rparr>))
       = Response 200 (Json (JArr
           [JObj [(k_id, JStr (js_of ''1700000000000'')), (k_nombre, JStr (js_of ''Ana'')),
                  (k_apellido, JStr (js_of ''Diaz'')), (k_telefono, JStr (js_of ''5551234''))]]))"
proof -
  let ?b = "JObj [(k_id, JStr (js_of ''chosen-by-client'')), (k_nombre, JStr (js_of ''Ana'')),
                  (k_apellido, JStr (js_of ''Diaz'')), (k_telefono, JStr (js_of ''5551234''))]"
  let ?w = "\<lparr>document = None, read_fault = None, write_fault = None\<rparr>"
  have b: "wf ?b"
    by (simp add: k_nombre_def k_apellido_def k_telefono_def k_id_def js_of_simps
          digits_only_def is_digit_def)
  have ok: "fields_missing ?b = Inr False"
    by (simp add: fields_missing_def k_nombre_def k_apellido_def k_telefono_def k_id_def
          js_of_simps)
  have s: "serving ?w" by (simp add: serving_def)
  have r: "readContacts ?w = Inr (JArr [])" by (simp add: readContacts_cases)
  have n: "new_contact 1700000000000 ?b
             = JObj [(k_id, JStr (js_of ''1700000000000'')), (k_nombre, JStr (js_of ''Ana'')),
                     (k_apellido, JStr (js_of ''Diaz'')), (k_telefono, JStr (js_of ''5551234''))]"
    by (simp add: new_contact_def number_toString_def nat_digits.simps js_of_simps)
  show ?thesis
    using client_id_overwritten [OF b ok s r, of 1700000000000] b ok s r n by simp
qed

end
